theory Spec2Isabelle
  imports Complex_Main "HOL-Library.AList" "HOL-Library.Multiset"
begin

section \<open>Numbers: IEEE doubles\<close>

text \<open>
  The expense summary of \<^verbatim>\<open>App.tsx\<close> (lines 804-833) computes the trip total, the
  totals per category and per participant, and the list of settling payments, all in
  JavaScript numbers. A finite double is modelled by the rational it denotes, and every
  addition, subtraction and division of the source rounds its exact result to the nearest
  double, ties to even (\<open>fl\<close>), with 53 bits of precision and gradual underflow below
  \<open>2\<^sup>-\<^sup>1\<^sup>0\<^sup>2\<^sup>2\<close>. Negation, \<^verbatim>\<open>Math.min\<close>, \<^verbatim>\<open>Math.abs\<close> and comparisons
  are exact. Overflow to an infinity is not modelled: the numbers of the model are the
  finite ones.
\<close>

text \<open>The number of binary digits of a positive integer.\<close>

function ilen :: "int \<Rightarrow> int" where
  "ilen n = (if n \<le> 0 then 0 else 1 + ilen (n div 2))"
  by pat_completeness auto
termination
  by (relation "measure nat") auto

declare ilen.simps [simp del]

definition pow2 :: "int \<Rightarrow> rat" where
  "pow2 k = (if 0 \<le> k then 2 ^ nat k else 1 / 2 ^ nat (- k))"

text \<open>For \<open>x > 0\<close>, the exponent \<open>e\<close> with \<open>2\<^sup>e \<le> x < 2\<^sup>e\<^sup>+\<^sup>1\<close>.\<close>

definition ilog2 :: "rat \<Rightarrow> int" where
  "ilog2 x = (let (p, q) = quotient_of x; e = ilen p - ilen q
              in if pow2 e \<le> x then e else e - 1)"

text \<open>Rounding to the nearest integer, a tie to the even one.\<close>

definition round_even :: "rat \<Rightarrow> int" where
  "round_even y =
     (let f = \<lfloor>y\<rfloor>; d = y - of_int f
      in if d < 1 / 2 then f else if 1 / 2 < d then f + 1 else if even f then f else f + 1)"

text \<open>
  Rounding to the nearest double: the spacing of the doubles around \<open>x\<close> is
  \<open>2\<^sup>e\<^sup>-\<^sup>5\<^sup>2\<close>, where \<open>e\<close> is the exponent of \<open>x\<close>, and at least \<open>-1022\<close>.
\<close>

definition fl :: "rat \<Rightarrow> rat" where
  "fl x = (if x = 0 then 0
           else let q = pow2 (max (ilog2 \<bar>x\<bar>) (- 1022) - 52)
                in of_int (round_even (x / q)) * q)"

text \<open>The unit roundoff of the doubles and half the smallest subnormal.\<close>

definition u53 :: rat where
  "u53 = 1 / 2 ^ 53"

definition eta :: rat where
  "eta = 1 / 2 ^ 1075"

text \<open>The literal \<^verbatim>\<open>0.005\<close> of lines 822-830 is the double nearest to \<open>5/1000\<close>.\<close>

definition eps :: rat where
  "eps = 5764607523034235 / 1152921504606846976"

text \<open>\<^verbatim>\<open>reduce((sum, x) => sum + x, 0)\<close>: the doubles added from left to right.\<close>

definition js_sum :: "rat list \<Rightarrow> rat" where
  "js_sum xs = foldl (\<lambda>sum x. fl (sum + x)) 0 xs"

section \<open>Data model (types.ts)\<close>

datatype ExpenseCategory =
  ALOJAMIENTO | ACTIVIDADES | COMIDA | TRANSPORTE | ENTRADAS | COMPRAS | OTROS

text \<open>Of an \<^verbatim>\<open>Expense\<close> only the three fields read by the summary are kept.\<close>

record Expense =
  amount :: rat
  category :: ExpenseCategory
  paidBy :: string

record Participant =
  name :: string

text \<open>
  \<^verbatim>\<open>SettledPayment { from, to, amount }\<close>; the fields are prefixed because
  \<^verbatim>\<open>from\<close> is a keyword and \<^verbatim>\<open>amount\<close> is a field of \<^typ>\<open>Expense\<close>.
\<close>

record SettledPayment =
  payFrom :: string
  payTo :: string
  payAmount :: rat

text \<open>\<^verbatim>\<open>CATEGORIES = Object.values(ExpenseCategory)\<close>: the members in declaration order.\<close>

definition CATEGORIES :: "ExpenseCategory list" where
  "CATEGORIES = [ALOJAMIENTO, ACTIVIDADES, COMIDA, TRANSPORTE, ENTRADAS, COMPRAS, OTROS]"

section \<open>Objects used as dictionaries\<close>

text \<open>
  The values that the objects \<^verbatim>\<open>byParticipant\<close> and \<^verbatim>\<open>balances\<close> can hold or yield:
  a finite number, \<^verbatim>\<open>NaN\<close>, a string that is no numeral (the result of adding a number
  to a function or an object), and a function or object inherited from
  \<^verbatim>\<open>Object.prototype\<close>.
\<close>

datatype jsval = Num rat | NaN | Str | Fun

text \<open>
  An object literal \<^verbatim>\<open>{}\<close> is modelled by the association list of its own properties
  in creation order, with distinct keys. Reading a name that is no own property goes to
  \<^verbatim>\<open>Object.prototype\<close>, whose property names are listed here; any other name reads
  as \<^verbatim>\<open>undefined\<close> (\<^const>\<open>None\<close>).
\<close>

definition proto_names :: "string list" where
  "proto_names =
     [''constructor'', ''__defineGetter__'', ''__defineSetter__'', ''hasOwnProperty'',
      ''__lookupGetter__'', ''__lookupSetter__'', ''isPrototypeOf'',
      ''propertyIsEnumerable'', ''toString'', ''valueOf'', ''__proto__'',
      ''toLocaleString'']"

definition get :: "(string \<times> jsval) list \<Rightarrow> string \<Rightarrow> jsval option" where
  "get ob k =
     (case map_of ob k of
        Some v \<Rightarrow> Some v
      | None \<Rightarrow> if k \<in> set proto_names then Some Fun else None)"

text \<open>
  \<^verbatim>\<open>ob[k] = v\<close> for a primitive \<open>v\<close>: an existing own property is replaced in place, a
  new one is appended; the name \<^verbatim>\<open>__proto__\<close> is the setter of the prototype, which
  ignores a primitive and creates no property.
\<close>

definition put :: "string \<Rightarrow> jsval \<Rightarrow> (string \<times> jsval) list \<Rightarrow> (string \<times> jsval) list" where
  "put k v ob = (if k = ''__proto__'' then ob else AList.update k v ob)"

text \<open>\<^verbatim>\<open>x || 0\<close>: \<^verbatim>\<open>undefined\<close>, \<^verbatim>\<open>0\<close> and \<^verbatim>\<open>NaN\<close> are falsy.\<close>

definition or_zero :: "jsval option \<Rightarrow> jsval" where
  "or_zero x =
     (case x of
        None \<Rightarrow> Num 0
      | Some (Num a) \<Rightarrow> Num a
      | Some NaN \<Rightarrow> Num 0
      | Some Str \<Rightarrow> Str
      | Some Fun \<Rightarrow> Fun)"

text \<open>\<^verbatim>\<open>x + a\<close> for a number \<open>a\<close>: a string or a function is concatenated with it.\<close>

definition js_plus :: "jsval \<Rightarrow> rat \<Rightarrow> jsval" where
  "js_plus x a = (case x of Num b \<Rightarrow> Num (fl (b + a)) | NaN \<Rightarrow> NaN | Str \<Rightarrow> Str | Fun \<Rightarrow> Str)"

text \<open>What a property reads as after \<^verbatim>\<open>ob[k] = (ob[k] || 0) + a\<close>, from what it read as before.\<close>

definition acc :: "jsval option \<Rightarrow> rat \<Rightarrow> jsval option" where
  "acc x a = Some (js_plus (or_zero x) a)"

text \<open>\<^verbatim>\<open>x - a\<close> for a number \<open>a\<close>: anything that is no number is converted to \<^verbatim>\<open>NaN\<close>.\<close>

definition js_minus :: "jsval \<Rightarrow> rat \<Rightarrow> jsval" where
  "js_minus x a = (case x of Num b \<Rightarrow> Num (fl (b - a)) | _ \<Rightarrow> NaN)"

text \<open>\<^verbatim>\<open>x < r\<close> and \<^verbatim>\<open>x > r\<close> for a number \<open>r\<close>: false unless \<open>x\<close> is a number.\<close>

definition js_less :: "jsval \<Rightarrow> rat \<Rightarrow> bool" where
  "js_less x r = (case x of Num a \<Rightarrow> a < r | _ \<Rightarrow> False)"

definition js_greater :: "jsval \<Rightarrow> rat \<Rightarrow> bool" where
  "js_greater x r = (case x of Num a \<Rightarrow> r < a | _ \<Rightarrow> False)"

definition num_of :: "jsval \<Rightarrow> rat" where
  "num_of x = (case x of Num a \<Rightarrow> a | _ \<Rightarrow> 0)"

text \<open>
  \<^verbatim>\<open>Object.entries\<close> lists the own properties whose name is an array index (a canonical
  decimal numeral below \<open>2\<^sup>3\<^sup>2 - 1\<close>) first, in ascending numeric order, and then the
  other names in creation order.
\<close>

definition is_digit :: "char \<Rightarrow> bool" where
  "is_digit c = (48 \<le> (of_char c :: int) \<and> (of_char c :: int) \<le> 57)"

definition digits_val :: "string \<Rightarrow> int" where
  "digits_val s = foldl (\<lambda>n c. 10 * n + ((of_char c :: int) - 48)) 0 s"

definition is_array_index :: "string \<Rightarrow> bool" where
  "is_array_index s =
     (s \<noteq> [] \<and> list_all is_digit s \<and> (length s = 1 \<or> hd s \<noteq> CHR ''0'')
      \<and> digits_val s < 4294967295)"

definition entries :: "(string \<times> 'v) list \<Rightarrow> (string \<times> 'v) list" where
  "entries ob =
     sort_key (\<lambda>e. digits_val (fst e)) (filter (\<lambda>e. is_array_index (fst e)) ob)
     @ filter (\<lambda>e. \<not> is_array_index (fst e)) ob"

section \<open>Aggregation (App.tsx, lines 804-816)\<close>

text \<open>\<^verbatim>\<open>expenses.reduce((sum, exp) => sum + exp.amount, 0)\<close>\<close>

definition totalTripCost :: "Expense list \<Rightarrow> rat" where
  "totalTripCost expenses = foldl (\<lambda>sum exp. fl (sum + amount exp)) 0 expenses"

text \<open>
  \<^verbatim>\<open>CATEGORIES.forEach(cat => byCategory[cat] = 0);\<close>
  \<^verbatim>\<open>expenses.forEach(exp => { byCategory[exp.category] = (byCategory[exp.category] || 0) + exp.amount; });\<close>

  The keys are the seven category names, none of which is a property name of
  \<^verbatim>\<open>Object.prototype\<close>, and the values are numbers; so this object is an association list
  from categories to numbers.
\<close>

definition get_or_zero :: "('k \<times> rat) list \<Rightarrow> 'k \<Rightarrow> rat" where
  "get_or_zero ob k = (case map_of ob k of None \<Rightarrow> 0 | Some v \<Rightarrow> if v = 0 then 0 else v)"

definition expensesByCategory :: "Expense list \<Rightarrow> (ExpenseCategory \<times> rat) list" where
  "expensesByCategory expenses =
     foldl (\<lambda>byCategory exp.
              AList.update (category exp)
                (fl (get_or_zero byCategory (category exp) + amount exp)) byCategory)
       (foldl (\<lambda>byCategory cat. AList.update cat 0 byCategory) [] CATEGORIES)
       expenses"

text \<open>
  \<^verbatim>\<open>trip.participants.forEach(p => byParticipant[p.name] = 0);\<close>
  \<^verbatim>\<open>expenses.forEach(exp => { byParticipant[exp.paidBy] = (byParticipant[exp.paidBy] || 0) + exp.amount; });\<close>
\<close>

definition expensesByParticipant ::
  "Expense list \<Rightarrow> Participant list \<Rightarrow> (string \<times> jsval) list" where
  "expensesByParticipant expenses participants =
     foldl (\<lambda>byParticipant exp.
              put (paidBy exp)
                (js_plus (or_zero (get byParticipant (paidBy exp))) (amount exp)) byParticipant)
       (foldl (\<lambda>byParticipant p. put (name p) (Num 0) byParticipant) [] participants)
       expenses"

section \<open>Settlement (App.tsx, lines 817-833)\<close>

text \<open>\<^verbatim>\<open>const avgCost = totalTripCost / trip.participants.length;\<close>\<close>

definition avgCost :: "rat \<Rightarrow> Participant list \<Rightarrow> rat" where
  "avgCost tot participants = fl (tot / of_nat (length participants))"

text \<open>The right-hand side of line 821: \<^verbatim>\<open>(expensesByParticipant[p.name] || 0) - avgCost\<close>.\<close>

definition balance ::
  "rat \<Rightarrow> (string \<times> jsval) list \<Rightarrow> Participant list \<Rightarrow> string \<Rightarrow> jsval" where
  "balance tot byParticipant participants nm =
     js_minus (or_zero (get byParticipant nm)) (avgCost tot participants)"

text \<open>\<^verbatim>\<open>trip.participants.forEach(p => { balances[p.name] = ... });\<close>\<close>

definition balances ::
  "rat \<Rightarrow> (string \<times> jsval) list \<Rightarrow> Participant list \<Rightarrow> (string \<times> jsval) list" where
  "balances tot byParticipant participants =
     foldl (\<lambda>bal p. put (name p)
                       (balance tot byParticipant participants (name p)) bal)
       [] participants"

text \<open>
  Lines 822-823. The entries that pass the filter hold numbers, which \<^const>\<open>num_of\<close>
  reads. \<^verbatim>\<open>Array.prototype.sort\<close> is stable, and so is \<^const>\<open>sort_key\<close>; the comparator
  \<^verbatim>\<open>(a,b) => b[1] - a[1]\<close> sorts by descending value.
\<close>

definition debtors_of :: "(string \<times> jsval) list \<Rightarrow> (string \<times> rat) list" where
  "debtors_of bal =
     sort_key snd (map (\<lambda>(k, amt). (k, num_of amt))
       (filter (\<lambda>(_, amt). js_less amt (- eps)) (entries bal)))"

definition creditors_of :: "(string \<times> jsval) list \<Rightarrow> (string \<times> rat) list" where
  "creditors_of bal =
     sort_key (\<lambda>e. - snd e) (map (\<lambda>(k, amt). (k, num_of amt))
       (filter (\<lambda>(_, amt). js_greater amt eps) (entries bal)))"

text \<open>The variables of the \<^verbatim>\<open>while\<close> loop of lines 825-831.\<close>

record loop_state =
  debtors :: "(string \<times> rat) list"
  creditors :: "(string \<times> rat) list"
  payments :: "SettledPayment list"
  dIdx :: nat
  cIdx :: nat

definition loop_cond :: "loop_state \<Rightarrow> bool" where
  "loop_cond s = (dIdx s < length (debtors s) \<and> cIdx s < length (creditors s))"

text \<open>\<^verbatim>\<open>Math.min(-debtors[dIdx][1], creditors[cIdx][1])\<close>\<close>

definition transfer_of :: "loop_state \<Rightarrow> rat" where
  "transfer_of s = min (- snd (debtors s ! dIdx s)) (snd (creditors s ! cIdx s))"

text \<open>
  One pass through the loop body; it is only run where \<^const>\<open>loop_cond\<close> holds, so both
  indices are in range. The arrays of \<^verbatim>\<open>debtors\<close> and \<^verbatim>\<open>creditors\<close> come from two
  separate calls of \<^verbatim>\<open>Object.entries\<close>, so the pairs updated in place are not shared.
\<close>

definition loop_body :: "loop_state \<Rightarrow> loop_state" where
  "loop_body s =
     (let d = debtors s ! dIdx s;
          c = creditors s ! cIdx s;
          transfer = transfer_of s;
          payments' = (if transfer > eps
                       then payments s @ [\<lparr>payFrom = fst d, payTo = fst c, payAmount = transfer\<rparr>]
                       else payments s);
          debtors' = (debtors s)[dIdx s := (fst d, fl (snd d + transfer))];
          creditors' = (creditors s)[cIdx s := (fst c, fl (snd c - transfer))];
          dIdx' = (if \<bar>snd (debtors' ! dIdx s)\<bar> < eps then dIdx s + 1 else dIdx s);
          cIdx' = (if \<bar>snd (creditors' ! cIdx s)\<bar> < eps then cIdx s + 1 else cIdx s)
      in \<lparr>debtors = debtors', creditors = creditors', payments = payments',
          dIdx = dIdx', cIdx = cIdx'\<rparr>)"

definition remaining :: "loop_state \<Rightarrow> nat" where
  "remaining s = (length (debtors s) - dIdx s) + (length (creditors s) - cIdx s)"

function loop :: "loop_state \<Rightarrow> loop_state" where
  "loop s = (if loop_cond s then loop (loop_body s) else s)"
  by pat_completeness auto
termination
proof (relation "measure remaining")
  show "wf (measure remaining)" by simp
next
  fix s assume "loop_cond s"
  then show "(loop_body s, s) \<in> measure remaining"
    by (cases "- snd (debtors s ! dIdx s) \<le> snd (creditors s ! cIdx s)")
       (auto simp add: remaining_def loop_body_def Let_def transfer_of_def loop_cond_def
          eps_def min_def fl_def)
qed

declare loop.simps [simp del]

text \<open>The number of times the loop body runs when the loop is entered in state \<open>s\<close>.\<close>

function loop_iterations :: "loop_state \<Rightarrow> nat" where
  "loop_iterations s = (if loop_cond s then Suc (loop_iterations (loop_body s)) else 0)"
  by pat_completeness auto
termination
proof (relation "measure remaining")
  show "wf (measure remaining)" by simp
next
  fix s assume "loop_cond s"
  then show "(loop_body s, s) \<in> measure remaining"
    by (cases "- snd (debtors s ! dIdx s) \<le> snd (creditors s ! cIdx s)")
       (auto simp add: remaining_def loop_body_def Let_def transfer_of_def loop_cond_def
          eps_def min_def fl_def)
qed

declare loop_iterations.simps [simp del]

definition init_state :: "(string \<times> jsval) list \<Rightarrow> loop_state" where
  "init_state bal =
     \<lparr>debtors = debtors_of bal, creditors = creditors_of bal, payments = [],
      dIdx = 0, cIdx = 0\<rparr>"

text \<open>The whole memo: the guard of line 818, then the loop on the sorted entries.\<close>

definition settledPayments ::
  "rat \<Rightarrow> (string \<times> jsval) list \<Rightarrow> Participant list \<Rightarrow> SettledPayment list" where
  "settledPayments tot byParticipant participants =
     (if length participants < 2 \<or> tot = 0 then []
      else payments (loop (init_state (balances tot byParticipant participants))))"

text \<open>The three memos chained as the component chains them, from the expense list.\<close>

definition settlement :: "Expense list \<Rightarrow> Participant list \<Rightarrow> SettledPayment list" where
  "settlement expenses participants =
     settledPayments (totalTripCost expenses)
       (expensesByParticipant expenses participants) participants"

section \<open>Auxiliary notions for the proofs\<close>

definition payment_ok :: "(string \<times> rat) list \<Rightarrow> (string \<times> rat) list \<Rightarrow> SettledPayment \<Rightarrow> bool" where
  "payment_ok ds cs p = (eps < payAmount p \<and> payFrom p \<in> fst ` set ds \<and> payTo p \<in> fst ` set cs)"

definition roundoff :: "rat \<Rightarrow> rat" where
  "roundoff B = u53 * B + eta"

text \<open>The amounts paid under a name, in the order of the expense list.\<close>

definition paid_by :: "Expense list \<Rightarrow> string \<Rightarrow> rat list" where
  "paid_by es k = map amount (filter (\<lambda>e. paidBy e = k) es)"

text \<open>The number that line 821 computes for a participant who has a numeric total.\<close>

definition balance_num :: "Expense list \<Rightarrow> Participant list \<Rightarrow> string \<Rightarrow> rat" where
  "balance_num es ps k = fl (js_sum (paid_by es k) - avgCost (totalTripCost es) ps)"

text \<open>
  Quantities used to account for the money moved: the sum of a list of payments, what a
  name pays and receives in it, the debt and the credit still held by the entries from the
  two indices on, and the bound \<open>M\<close> on the size of all entries.
\<close>

definition pushed :: "SettledPayment list \<Rightarrow> rat" where
  "pushed pays = sum_list (map payAmount pays)"

definition paid_from :: "string \<Rightarrow> SettledPayment list \<Rightarrow> rat" where
  "paid_from k pays = sum_list (map payAmount (filter (\<lambda>q. payFrom q = k) pays))"

definition paid_to :: "string \<Rightarrow> SettledPayment list \<Rightarrow> rat" where
  "paid_to k pays = sum_list (map payAmount (filter (\<lambda>q. payTo q = k) pays))"

definition debt_left :: "loop_state \<Rightarrow> rat" where
  "debt_left s = sum_list (map (\<lambda>e. - snd e) (drop (dIdx s) (debtors s)))"

definition credit_left :: "loop_state \<Rightarrow> rat" where
  "credit_left s = sum_list (map snd (drop (cIdx s) (creditors s)))"

definition bounded :: "rat \<Rightarrow> loop_state \<Rightarrow> bool" where
  "bounded M s =
     (list_all (\<lambda>e. - M \<le> snd e \<and> snd e \<le> 0) (debtors s)
      \<and> list_all (\<lambda>e. 0 \<le> snd e \<and> snd e \<le> M) (creditors s))"

text \<open>A balances object all of whose entries are numbers, from the list of the numbers.\<close>

definition num_entries :: "(string \<times> rat) list \<Rightarrow> (string \<times> jsval) list" where
  "num_entries nb = map (\<lambda>e. (fst e, Num (snd e))) nb"

section \<open>Rounding to a double: sign and error\<close>

lemma pow2_powi: "pow2 k = 2 powi k"
  by (simp add: pow2_def power_int_def inverse_eq_divide power_one_over)

lemma pow2_pos: "0 < pow2 k"
  by (simp add: pow2_powi)

lemma pow2_diff: "pow2 (a - b) = pow2 a / pow2 b"
  by (simp add: pow2_powi power_int_diff)

lemma pow2_add: "pow2 (a + b) = pow2 a * pow2 b"
  by (simp add: pow2_powi power_int_add)

lemma pow2_nat: "0 \<le> k \<Longrightarrow> pow2 k = 2 ^ nat k"
  by (simp add: pow2_def)

lemma pow2_mono: "a \<le> b \<Longrightarrow> pow2 a \<le> pow2 b"
  by (simp add: pow2_powi power_int_increasing)

lemma ilen_bounds:
  "0 < n \<Longrightarrow> 0 < ilen n \<and> 2 ^ nat (ilen n - 1) \<le> n \<and> n < 2 ^ nat (ilen n)"
proof (induction n rule: ilen.induct)
  case (1 n)
  show ?case
  proof (cases "n = 1")
    case True
    have "ilen 1 = 1" by (simp add: ilen.simps [of 1] ilen.simps [of 0])
    with True show ?thesis by simp
  next
    case False
    with "1.prems" have pos: "0 < n div 2" by simp
    define l where "l = ilen (n div 2)"
    from "1.IH" [OF _ pos] "1.prems"
    have ih: "0 < l" "2 ^ nat (l - 1) \<le> n div 2" "n div 2 < 2 ^ nat l"
      by (simp_all add: l_def)
    have len: "ilen n = 1 + l"
      using "1.prems" by (simp add: ilen.simps [of n] l_def)
    have p: "(2::int) ^ nat l = 2 * 2 ^ nat (l - 1)"
      using ih(1) by (simp add: nat_diff_distrib power_eq_if)
    have p': "(2::int) ^ nat (1 + l) = 2 * 2 ^ nat l"
      using ih(1) by (simp add: nat_add_distrib)
    have "2 ^ nat l \<le> n" using ih(2) p by linarith
    moreover have "n < 2 ^ nat (1 + l)" using ih(3) p' by linarith
    ultimately show ?thesis using ih(1) by (simp add: len)
  qed
qed

lemma ilog2_le:
  assumes "0 < x"
  shows "pow2 (ilog2 x) \<le> x"
proof -
  obtain p q where pq: "quotient_of x = (p, q)" by (cases "quotient_of x")
  then have q: "0 < q" and x: "x = of_int p / of_int q"
    by (simp_all add: quotient_of_denom_pos quotient_of_div)
  from assms x q have p: "0 < p" by (simp add: zero_less_divide_iff)
  define e where "e = ilen p - ilen q"
  show ?thesis
  proof (cases "pow2 e \<le> x")
    case True
    then show ?thesis by (simp add: ilog2_def pq e_def Let_def)
  next
    case False
    note bp = ilen_bounds [OF p] and bq = ilen_bounds [OF q]
    have "pow2 (ilen p - 1) \<le> of_int p"
    proof -
      have "pow2 (ilen p - 1) = of_int (2 ^ nat (ilen p - 1))"
        using bp by (simp add: pow2_nat)
      also have "\<dots> \<le> of_int p" using bp by (simp only: of_int_le_iff)
      finally show ?thesis .
    qed
    moreover have "of_int q < pow2 (ilen q)"
    proof -
      have "(of_int q :: rat) < of_int (2 ^ nat (ilen q))"
        using bq by (simp only: of_int_less_iff)
      also have "\<dots> = pow2 (ilen q)" using bq by (simp add: pow2_nat)
      finally show ?thesis .
    qed
    moreover have "pow2 (ilen p - 1) = pow2 (e - 1) * pow2 (ilen q)"
      by (simp add: e_def pow2_add [symmetric])
    ultimately have "pow2 (e - 1) * of_int q \<le> of_int p"
      using pow2_pos [of "e - 1"]
      by (smt (verit, best) mult_le_cancel_left_pos order_less_imp_le order_trans)
    then have "pow2 (e - 1) \<le> x"
      using q by (simp add: x pos_le_divide_eq)
    with False show ?thesis by (simp add: ilog2_def pq e_def Let_def)
  qed
qed

lemma round_even_error: "\<bar>of_int (round_even y) - y\<bar> \<le> 1 / 2"
proof -
  have "of_int \<lfloor>y\<rfloor> \<le> y" "y < of_int \<lfloor>y\<rfloor> + 1" by linarith+
  then show ?thesis
    by (auto simp add: round_even_def Let_def)
qed

lemma round_even_nonneg: "0 \<le> y \<Longrightarrow> 0 \<le> round_even y"
  by (auto simp add: round_even_def Let_def)

lemma round_even_nonpos: "y \<le> 0 \<Longrightarrow> round_even y \<le> 0"
proof -
  assume y: "y \<le> 0"
  show ?thesis
  proof (cases "y = 0")
    case True
    then show ?thesis by (simp add: round_even_def)
  next
    case False
    with y have "\<lfloor>y\<rfloor> \<le> - 1" by (simp add: floor_le_iff)
    then show ?thesis by (auto simp add: round_even_def Let_def)
  qed
qed

lemma fl_zero: "fl 0 = 0"
  by (simp add: fl_def)

lemma fl_nonneg: "0 \<le> x \<Longrightarrow> 0 \<le> fl x"
  by (simp add: fl_def Let_def pow2_pos round_even_nonneg order_less_imp_le)

lemma fl_nonpos: "x \<le> 0 \<Longrightarrow> fl x \<le> 0"
  by (simp add: fl_def Let_def pow2_pos round_even_nonpos mult_le_0_iff divide_le_0_iff
      order_less_imp_le)

lemma fl_error: "\<bar>fl x - x\<bar> \<le> u53 * \<bar>x\<bar> + eta"
proof (cases "x = 0")
  case True
  then show ?thesis by (simp add: fl_def u53_def eta_def)
next
  case False
  define e where "e = max (ilog2 \<bar>x\<bar>) (- 1022)"
  define q where "q = pow2 (e - 52)"
  have q: "0 < q" by (simp add: q_def pow2_pos)
  have u: "pow2 (- 53) = u53" by (simp add: pow2_def u53_def)
  have eta: "pow2 (- 1075) = eta" by (simp add: pow2_def eta_def)
  have pos: "0 \<le> u53 * \<bar>x\<bar>" "0 \<le> eta" by (simp_all add: u53_def eta_def)
  have fl: "fl x = of_int (round_even (x / q)) * q"
    using False by (simp add: fl_def Let_def q_def e_def)
  have "fl x - x = (of_int (round_even (x / q)) - x / q) * q"
    using q by (simp add: fl left_diff_distrib)
  then have "\<bar>fl x - x\<bar> = \<bar>of_int (round_even (x / q)) - x / q\<bar> * q"
    using q by (simp add: abs_mult)
  also have "\<dots> \<le> 1 / 2 * q"
    using round_even_error [of "x / q"] q by (simp only: mult_le_cancel_right_pos)
  also have "\<dots> = pow2 (e - 53)"
  proof -
    have "q = pow2 (e - 53) * pow2 1" unfolding q_def pow2_add [symmetric] by simp
    then show ?thesis by (simp add: pow2_def)
  qed
  finally have half: "\<bar>fl x - x\<bar> \<le> pow2 (e - 53)" .
  show ?thesis
  proof (cases "- 1022 \<le> ilog2 \<bar>x\<bar>")
    case True
    then have "pow2 e \<le> \<bar>x\<bar>"
      using ilog2_le [of "\<bar>x\<bar>"] False by (simp add: e_def max_def)
    moreover have "pow2 (e - 53) = u53 * pow2 e"
      unfolding u [symmetric] pow2_add [symmetric] by simp
    moreover have "0 \<le> u53" by (simp add: u53_def)
    ultimately have "pow2 (e - 53) \<le> u53 * \<bar>x\<bar>"
      by (simp add: mult_left_mono)
    with half pos(2) show ?thesis by linarith
  next
    case False
    then have "e - 53 = - 1075" by (simp add: e_def max_def)
    with half eta have "\<bar>fl x - x\<bar> \<le> eta" by simp
    with pos(1) show ?thesis by linarith
  qed
qed

section \<open>Lookup in the aggregates\<close>

lemma get_or_zero_eq: "get_or_zero ob k = (case map_of ob k of None \<Rightarrow> 0 | Some v \<Rightarrow> v)"
  by (simp add: get_or_zero_def split: option.splits)

lemma init_fold_lookup:
  "map_of (foldl (\<lambda>ob c. AList.update (f c) 0 ob) ob0 cs) k =
     (if k \<in> f ` set cs then Some 0 else map_of ob0 k)"
  by (induction cs arbitrary: ob0) (auto simp add: update_conv')

lemma add_fold_lookup:
  "map_of (foldl (\<lambda>ob e. AList.update (key e) (fl (get_or_zero ob (key e) + amount e)) ob) ob0 es) k =
     (if k \<in> key ` set es \<or> k \<in> fst ` set ob0
      then Some (foldl (\<lambda>sum x. fl (sum + x)) (get_or_zero ob0 k)
                   (map amount (filter (\<lambda>e. key e = k) es)))
      else None)"
proof (induction es arbitrary: ob0)
  case Nil
  show ?case
    by (auto simp add: get_or_zero_eq map_of_eq_None_iff split: option.splits)
next
  case (Cons e es)
  show ?case
    unfolding foldl_Cons Cons.IH
    by (auto simp add: dom_update get_or_zero_eq update_conv')
qed

lemma expensesByCategory_lookup:
  "map_of (expensesByCategory es) c =
     Some (js_sum (map amount (filter (\<lambda>e. category e = c) es)))"
proof -
  have "c \<in> set CATEGORIES" by (cases c) (simp_all add: CATEGORIES_def)
  then show ?thesis
    unfolding expensesByCategory_def add_fold_lookup js_sum_def
    by (simp add: init_fold_lookup get_or_zero_eq
        dom_map_of_conv_image_fst [symmetric] domIff)
qed

text \<open>Objects with a prototype.\<close>

lemma map_of_put:
  "map_of (put k v ob) k' =
     (if k = ''__proto__'' then map_of ob k' else if k' = k then Some v else map_of ob k')"
  by (simp add: put_def update_conv')

lemma get_put:
  "get (put k v ob) k' =
     (if k = ''__proto__'' then get ob k' else if k' = k then Some v else get ob k')"
  by (simp add: get_def map_of_put)

lemma keys_put:
  "fst ` set (put k v ob) = (if k = ''__proto__'' then {} else {k}) \<union> fst ` set ob"
  by (simp add: put_def dom_update)

lemma distinct_put: "distinct (map fst ob) \<Longrightarrow> distinct (map fst (put k v ob))"
  by (simp add: put_def distinct_update)

lemma seed_fold_lookup:
  "map_of (foldl (\<lambda>ob p. put (name p) (Num 0) ob) ob0 ps) k =
     (if k \<in> name ` set ps \<and> k \<noteq> ''__proto__'' then Some (Num 0) else map_of ob0 k)"
  by (induction ps arbitrary: ob0) (auto simp add: map_of_put)

text \<open>What one key of \<^verbatim>\<open>byParticipant\<close> reads as after the expenses were added.\<close>

lemma pay_fold_get:
  assumes "k \<noteq> ''__proto__''"
  shows "get (foldl (\<lambda>ob e. put (paidBy e) (js_plus (or_zero (get ob (paidBy e))) (amount e)) ob)
            ob0 es) k
       = foldl acc (get ob0 k)
           (map amount (filter (\<lambda>e. paidBy e = k) es))"
proof (induction es arbitrary: ob0)
  case Nil
  show ?case by simp
next
  case (Cons e es)
  show ?case
    unfolding foldl_Cons Cons.IH
    using assms by (auto simp add: get_put acc_def [symmetric])
qed

lemma pay_fold_keys:
  "fst ` set (foldl (\<lambda>ob e. put (paidBy e) (js_plus (or_zero (get ob (paidBy e))) (amount e)) ob)
            ob0 es)
     = fst ` set ob0 \<union> (paidBy ` set es - {''__proto__''})"
proof (induction es arbitrary: ob0)
  case Nil
  show ?case by simp
next
  case (Cons e es)
  show ?case
    unfolding foldl_Cons Cons.IH
    by (auto simp add: keys_put)
qed

lemma seed_fold_keys:
  "fst ` set (foldl (\<lambda>ob p. put (name p) (Num 0) ob) ob0 ps)
     = fst ` set ob0 \<union> (name ` set ps - {''__proto__''})"
proof (induction ps arbitrary: ob0)
  case Nil
  show ?case by simp
next
  case (Cons p ps)
  show ?case
    unfolding foldl_Cons Cons.IH
    by (auto simp add: keys_put)
qed

lemma acc_Num:
  "foldl acc (Some (Num r)) as
     = Some (Num (foldl (\<lambda>sum x. fl (sum + x)) r as))"
  by (induction as arbitrary: r) (simp_all add: acc_def or_zero_def js_plus_def)

lemma acc_None:
  "as \<noteq> [] \<Longrightarrow>
   foldl acc None as = Some (Num (js_sum as))"
  by (cases as) (simp_all add: acc_def [of None] or_zero_def js_plus_def acc_Num js_sum_def)

lemma acc_Str:
  "foldl acc (Some Str) as = Some Str"
  by (induction as) (simp_all add: acc_def or_zero_def js_plus_def)

lemma acc_Fun:
  "as \<noteq> [] \<Longrightarrow>
   foldl acc (Some Fun) as = Some Str"
  by (cases as) (simp_all add: acc_def [of "Some Fun"] or_zero_def js_plus_def acc_Str)

lemma expensesByParticipant_keys:
  "fst ` set (expensesByParticipant es ps)
     = (name ` set ps \<union> paidBy ` set es) - {''__proto__''}"
  unfolding expensesByParticipant_def pay_fold_keys seed_fold_keys by auto

lemma paid_nonempty:
  "map amount (filter (\<lambda>e. paidBy e = k) es) \<noteq> [] \<longleftrightarrow> k \<in> paidBy ` set es"
  by (auto simp add: filter_empty_conv)

lemma expensesByParticipant_get:
  assumes "k \<noteq> ''__proto__''"
  shows "get (expensesByParticipant es ps) k =
     (if k \<in> name ` set ps
      then Some (Num (js_sum (map amount (filter (\<lambda>e. paidBy e = k) es))))
      else if k \<in> paidBy ` set es
      then (if k \<in> set proto_names then Some Str
            else Some (Num (js_sum (map amount (filter (\<lambda>e. paidBy e = k) es)))))
      else if k \<in> set proto_names then Some Fun else None)"
proof -
  let ?seed = "foldl (\<lambda>ob p. put (name p) (Num 0) ob) [] ps"
  let ?as = "map amount (filter (\<lambda>e. paidBy e = k) es)"
  have seed: "get ?seed k =
      (if k \<in> name ` set ps then Some (Num 0)
       else if k \<in> set proto_names then Some Fun else None)"
    using assms by (simp add: get_def seed_fold_lookup)
  have g: "get (expensesByParticipant es ps) k
      = foldl acc (get ?seed k) ?as"
    unfolding expensesByParticipant_def by (rule pay_fold_get [OF assms])
  show ?thesis
  proof (cases "k \<in> name ` set ps")
    case True
    then show ?thesis by (simp add: g seed acc_Num js_sum_def)
  next
    case False
    show ?thesis
    proof (cases "k \<in> paidBy ` set es")
      case True
      then have ne: "?as \<noteq> []" by (simp only: paid_nonempty)
      from False True show ?thesis
        by (simp add: g seed acc_None [OF ne] acc_Fun [OF ne])
    next
      case no: False
      then have "?as = []" using paid_nonempty [of k es] by blast
      with False no show ?thesis by (simp add: g seed)
    qed
  qed
qed

lemma expensesByParticipant_lookup:
  "map_of (expensesByParticipant es ps) k =
     (if k = ''__proto__'' then None
      else if k \<in> name ` set ps
      then Some (Num (js_sum (map amount (filter (\<lambda>e. paidBy e = k) es))))
      else if k \<in> paidBy ` set es
      then (if k \<in> set proto_names then Some Str
            else Some (Num (js_sum (map amount (filter (\<lambda>e. paidBy e = k) es)))))
      else None)"
proof (cases "k \<in> fst ` set (expensesByParticipant es ps)")
  case False
  then have "map_of (expensesByParticipant es ps) k = None"
    by (simp add: map_of_eq_None_iff)
  with False show ?thesis by (auto simp add: expensesByParticipant_keys)
next
  case True
  then have k: "k \<noteq> ''__proto__''" "k \<in> name ` set ps \<or> k \<in> paidBy ` set es"
    by (auto simp add: expensesByParticipant_keys)
  from True obtain v where v: "map_of (expensesByParticipant es ps) k = Some v"
    by (metis domD dom_map_of_conv_image_fst)
  then have "get (expensesByParticipant es ps) k = Some v" by (simp add: get_def)
  with expensesByParticipant_get [OF k(1), of es ps] k v show ?thesis
    by (auto split: if_splits)
qed

section \<open>The loop: shape of the arrays and of the payments\<close>

lemma eps_pos: "0 < eps" by (simp add: eps_def)

lemma loop_body_lengths:
  "length (debtors (loop_body s)) = length (debtors s)"
  "length (creditors (loop_body s)) = length (creditors s)"
  by (simp_all add: loop_body_def Let_def)

lemma loop_body_keys:
  assumes "loop_cond s"
  shows "map fst (debtors (loop_body s)) = map fst (debtors s)"
    and "map fst (creditors (loop_body s)) = map fst (creditors s)"
  using assms
  by (simp_all add: loop_body_def Let_def loop_cond_def map_update list_update_same_conv)

lemma mset_entries: "mset (entries ob) = mset ob"
  by (simp add: entries_def)

lemma set_entries: "set (entries ob) = set ob"
  using mset_entries [of ob] by (metis set_mset_mset)

lemma js_less_iff: "js_less v r \<longleftrightarrow> (\<exists>a. v = Num a \<and> a < r)"
  by (cases v) (simp_all add: js_less_def)

lemma js_greater_iff: "js_greater v r \<longleftrightarrow> (\<exists>a. v = Num a \<and> r < a)"
  by (cases v) (simp_all add: js_greater_def)

lemma mem_debtors_of:
  "(k, a) \<in> set (debtors_of bal) \<longleftrightarrow> (k, Num a) \<in> set bal \<and> a < - eps"
proof -
  have "set (debtors_of bal)
      = (\<lambda>(k, v). (k, num_of v)) ` {e \<in> set bal. js_less (snd e) (- eps)}"
    by (auto simp add: debtors_of_def set_entries)
  then show ?thesis
    by (force simp add: js_less_iff num_of_def image_iff)
qed

lemma mem_creditors_of:
  "(k, a) \<in> set (creditors_of bal) \<longleftrightarrow> (k, Num a) \<in> set bal \<and> eps < a"
proof -
  have "set (creditors_of bal)
      = (\<lambda>(k, v). (k, num_of v)) ` {e \<in> set bal. js_greater (snd e) eps}"
    by (auto simp add: creditors_of_def set_entries)
  then show ?thesis
    by (force simp add: js_greater_iff num_of_def image_iff)
qed

lemma balances_fold_lookup:
  "map_of (foldl (\<lambda>bal p. put (name p) (g (name p)) bal) bal0 ps) k =
     (if k \<in> name ` set ps \<and> k \<noteq> ''__proto__'' then Some (g k) else map_of bal0 k)"
  by (induction ps arbitrary: bal0) (auto simp add: map_of_put)

lemma balances_fold_distinct:
  "distinct (map fst bal0) \<Longrightarrow>
   distinct (map fst (foldl (\<lambda>bal p. put (name p) (g (name p)) bal) bal0 ps))"
  by (induction ps arbitrary: bal0) (simp_all add: distinct_put)

lemma balances_lookup:
  "map_of (balances tot byP ps) k =
     (if k \<in> name ` set ps \<and> k \<noteq> ''__proto__'' then Some (balance tot byP ps k) else None)"
  unfolding balances_def by (simp add: balances_fold_lookup)

lemma balances_distinct: "distinct (map fst (balances tot byP ps))"
  unfolding balances_def by (rule balances_fold_distinct) simp

lemma balances_mem:
  "(k, v) \<in> set (balances tot byP ps) \<longleftrightarrow>
     k \<in> name ` set ps \<and> k \<noteq> ''__proto__'' \<and> balance tot byP ps k = v"
  using map_of_eq_Some_iff [OF balances_distinct, of tot byP ps k v]
  by (auto simp add: balances_lookup split: if_splits)

lemma loop_payments_ok:
  "list_all (payment_ok (debtors s) (creditors s)) (payments s) \<Longrightarrow>
   list_all (payment_ok (debtors s) (creditors s)) (payments (loop s))"
proof (induction s rule: loop.induct)
  case (1 s)
  show ?case
  proof (cases "loop_cond s")
    case False
    with "1.prems" show ?thesis by (simp add: loop.simps)
  next
    case True
    have keys: "fst ` set (debtors (loop_body s)) = fst ` set (debtors s)"
      "fst ` set (creditors (loop_body s)) = fst ` set (creditors s)"
      using loop_body_keys [OF True] by (metis set_map)+
    have ok: "payment_ok (debtors (loop_body s)) (creditors (loop_body s)) = payment_ok (debtors s) (creditors s)"
      by (simp add: payment_ok_def keys fun_eq_iff)
    have "list_all (payment_ok (debtors s) (creditors s)) (payments (loop_body s))"
      using "1.prems" True
      by (auto simp add: loop_body_def Let_def loop_cond_def transfer_of_def list_all_iff payment_ok_def)
    with "1.IH" [OF True] ok True show ?thesis
      by (simp add: loop.simps [of s])
  qed
qed

lemma settledPayments_ok:
  assumes "p \<in> set (settledPayments tot byP ps)"
  shows "eps < payAmount p"
    and "payFrom p \<in> name ` set ps" and "js_less (balance tot byP ps (payFrom p)) (- eps)"
    and "payTo p \<in> name ` set ps" and "js_greater (balance tot byP ps (payTo p)) eps"
proof -
  let ?bal = "balances tot byP ps"
  have "list_all (payment_ok (debtors (init_state ?bal)) (creditors (init_state ?bal)))
          (payments (loop (init_state ?bal)))"
    by (rule loop_payments_ok) (simp add: init_state_def)
  moreover from assms have "p \<in> set (payments (loop (init_state ?bal)))"
    by (simp add: settledPayments_def split: if_splits)
  ultimately have ok: "payment_ok (debtors_of ?bal) (creditors_of ?bal) p"
    by (simp add: list_all_iff init_state_def)
  then show "eps < payAmount p" by (simp add: payment_ok_def)
  from ok obtain v where "(payFrom p, v) \<in> set (debtors_of ?bal)"
    by (auto simp add: payment_ok_def)
  then show "payFrom p \<in> name ` set ps" "js_less (balance tot byP ps (payFrom p)) (- eps)"
    by (auto simp add: mem_debtors_of balances_mem js_less_iff)
  from ok obtain w where "(payTo p, w) \<in> set (creditors_of ?bal)"
    by (auto simp add: payment_ok_def)
  then show "payTo p \<in> name ` set ps" "js_greater (balance tot byP ps (payTo p)) eps"
    by (auto simp add: mem_creditors_of balances_mem js_greater_iff)
qed

section \<open>The loop: termination and number of iterations\<close>

lemma loop_body_indices_le:
  "dIdx (loop_body s) \<le> dIdx s + 1" "cIdx (loop_body s) \<le> cIdx s + 1"
  by (simp_all add: loop_body_def Let_def)

lemma loop_body_remaining:
  assumes "loop_cond s"
  shows "remaining (loop_body s) < remaining s"
  using assms
  by (cases "- snd (debtors s ! dIdx s) \<le> snd (creditors s ! cIdx s)")
     (auto simp add: remaining_def loop_body_def Let_def transfer_of_def loop_cond_def
        eps_def min_def fl_zero)

lemma loop_iterations_bound:
  "loop_cond s \<Longrightarrow> Suc (loop_iterations s) \<le> remaining s"
proof (induction s rule: loop_iterations.induct)
  case (1 s)
  note dec = loop_body_remaining [OF "1.prems"]
  show ?case
  proof (cases "loop_cond (loop_body s)")
    case True
    from "1.IH" [OF "1.prems" True] dec "1.prems" show ?thesis
      by (simp add: loop_iterations.simps [of s])
  next
    case False
    then have "loop_iterations (loop_body s) = 0"
      by (simp add: loop_iterations.simps [of "loop_body s"])
    moreover from "1.prems" have "2 \<le> remaining s"
      unfolding loop_cond_def remaining_def by linarith
    ultimately show ?thesis using "1.prems"
      by (simp add: loop_iterations.simps [of s])
  qed
qed

lemma loop_funpow: "loop s = (loop_body ^^ loop_iterations s) s"
proof (induction s rule: loop.induct)
  case (1 s)
  show ?case
  proof (cases "loop_cond s")
    case True
    with "1.IH" show ?thesis
      by (simp add: loop.simps [of s] loop_iterations.simps [of s] funpow_swap1)
  next
    case False
    then show ?thesis
      by (simp add: loop.simps [of s] loop_iterations.simps [of s])
  qed
qed

lemma loop_exit: "\<not> loop_cond (loop s)"
proof (induction s rule: loop.induct)
  case (1 s)
  then show ?case by (cases "loop_cond s") (simp_all add: loop.simps [of s])
qed



lemma update_fresh: "k \<notin> fst ` set al \<Longrightarrow> AList.update k v al = al @ [(k, v)]"
  by (induction al) auto

section \<open>Rounding errors of the totals and of the balances\<close>

lemma u53_pos: "0 < u53" by (simp add: u53_def)

lemma eta_pos: "0 < eta" by (simp add: eta_def)

lemma roundoff_mono: "a \<le> b \<Longrightarrow> roundoff a \<le> roundoff b"
  using u53_pos by (simp add: roundoff_def)

lemma roundoff_nonneg: "0 \<le> B \<Longrightarrow> 0 \<le> roundoff B"
  using u53_pos eta_pos by (simp add: roundoff_def)

lemma fl_error_le: "\<bar>x\<bar> \<le> B \<Longrightarrow> \<bar>fl x - x\<bar> \<le> roundoff B"
  using fl_error [of x] roundoff_mono [of "\<bar>x\<bar>" B] by (simp add: roundoff_def)

lemma js_sum_snoc: "js_sum (xs @ [x]) = fl (js_sum xs + x)"
  by (simp add: js_sum_def)

lemma js_sum_error:
  assumes "sum_list (map abs as) \<le> B"
    and "of_nat (length as) * roundoff (2 * B) \<le> B"
  shows "\<bar>js_sum as - sum_list as\<bar> \<le> of_nat (length as) * roundoff (2 * B)"
  using assms
proof (induction as rule: rev_induct)
  case Nil
  then show ?case by (simp add: js_sum_def)
next
  case (snoc a as)
  define r where "r = roundoff (2 * B)"
  have s0: "\<bar>sum_list as\<bar> \<le> sum_list (map abs as)" by (rule sum_list_abs)
  have s1: "0 \<le> sum_list (map abs as)" by (rule sum_list_nonneg) auto
  from snoc.prems(1) have s: "sum_list (map abs as) + \<bar>a\<bar> \<le> B" by simp
  from s s1 have B: "0 \<le> B" "sum_list (map abs as) \<le> B" by linarith+
  then have r0: "0 \<le> r" unfolding r_def by (simp add: roundoff_nonneg)
  from snoc.prems(2) have len: "of_nat (length as) * r + r \<le> B"
    by (simp add: r_def algebra_simps)
  with r0 have len': "of_nat (length as) * r \<le> B" by linarith
  from snoc.IH [OF B(2)] len'
  have ih: "\<bar>js_sum as - sum_list as\<bar> \<le> of_nat (length as) * r" by (simp add: r_def)
  have "\<bar>js_sum as + a\<bar> \<le> 2 * B" using ih len' s s0 s1 by linarith
  then have "\<bar>fl (js_sum as + a) - (js_sum as + a)\<bar> \<le> r"
    unfolding r_def by (rule fl_error_le)
  with ih have "\<bar>fl (js_sum as + a) - (sum_list as + a)\<bar> \<le> of_nat (length as) * r + r"
    by linarith
  then show ?case
    by (simp add: js_sum_snoc r_def algebra_simps)
qed

lemma totalTripCost_js_sum: "totalTripCost es = js_sum (map amount es)"
proof -
  have "foldl (\<lambda>sum exp. fl (sum + amount exp)) a es
      = foldl (\<lambda>sum x. fl (sum + x)) a (map amount es)" for a
    by (induction es arbitrary: a) simp_all
  then show ?thesis by (simp add: totalTripCost_def js_sum_def)
qed

lemma sum_by_key:
  fixes f :: "'a \<Rightarrow> rat"
  shows "distinct ks \<Longrightarrow> g ` set xs \<subseteq> set ks \<Longrightarrow>
   sum_list (map (\<lambda>k. sum_list (map f (filter (\<lambda>x. g x = k) xs))) ks)
     = sum_list (map f xs)"
proof (induction xs)
  case Nil
  then show ?case by simp
next
  case (Cons x xs)
  have none: "sum_list (map (\<lambda>k. if g x = k then f x else 0) ks) = 0"
    if "g x \<notin> set ks" for ks
    using that by (induction ks) auto
  have one: "sum_list (map (\<lambda>k. if g x = k then f x else 0) ks) = f x"
    if "distinct ks" "g x \<in> set ks" for ks
    using that by (induction ks) (auto simp add: none)
  have "sum_list (map (\<lambda>k. sum_list (map f (filter (\<lambda>y. g y = k) (x # xs)))) ks)
      = sum_list (map (\<lambda>k. (if g x = k then f x else 0)
           + sum_list (map f (filter (\<lambda>y. g y = k) xs))) ks)"
    by (rule arg_cong [where f = sum_list]) simp
  also have "\<dots> = sum_list (map (\<lambda>k. if g x = k then f x else 0) ks)
      + sum_list (map (\<lambda>k. sum_list (map f (filter (\<lambda>y. g y = k) xs))) ks)"
    by (simp add: sum_list_addf)
  also have "\<dots> = f x + sum_list (map f xs)"
    using Cons by (simp add: one)
  finally show ?case by simp
qed

lemma sum_by_payer:
  fixes f :: "Expense \<Rightarrow> rat"
  shows "distinct ks \<Longrightarrow> paidBy ` set es \<subseteq> set ks \<Longrightarrow>
   sum_list (map (\<lambda>k. sum_list (map f (filter (\<lambda>e. paidBy e = k) es))) ks)
     = sum_list (map f es)"
  by (rule sum_by_key)

lemma sum_list_abs_diff_le:
  fixes f g h :: "'a \<Rightarrow> rat"
  assumes "\<forall>x \<in> set xs. \<bar>f x - g x\<bar> \<le> h x"
  shows "\<bar>sum_list (map f xs) - sum_list (map g xs)\<bar> \<le> sum_list (map h xs)"
  using assms
proof (induction xs)
  case Nil
  then show ?case by simp
next
  case (Cons x xs)
  then have "\<bar>f x - g x\<bar> \<le> h x"
    "\<bar>sum_list (map f xs) - sum_list (map g xs)\<bar> \<le> sum_list (map h xs)"
    by simp_all
  then show ?case by simp
qed

lemma balance_Num:
  assumes "k \<in> name ` set ps" "k \<noteq> ''__proto__''"
  shows "balance (totalTripCost es) (expensesByParticipant es ps) ps k
     = Num (balance_num es ps k)"
  using expensesByParticipant_get [OF assms(2), of es ps] assms(1)
  by (simp add: balance_def or_zero_def js_minus_def balance_num_def paid_by_def)

lemma balances_map_of:
  assumes "''__proto__'' \<notin> name ` set ps"
  shows "map (\<lambda>p. map_of (balances (totalTripCost es) (expensesByParticipant es ps) ps) (name p)) ps
     = map (\<lambda>b. Some (Num b)) (map (\<lambda>p. balance_num es ps (name p)) ps)"
proof -
  have "map_of (balances (totalTripCost es) (expensesByParticipant es ps) ps) (name p)
      = Some (Num (balance_num es ps (name p)))" if "p \<in> set ps" for p
  proof -
    from that have k1: "name p \<in> name ` set ps" by simp
    with assms have "name p \<noteq> ''__proto__''" by metis
    with k1 have k: "name p \<in> name ` set ps" "name p \<noteq> ''__proto__''" by blast+
    then show ?thesis by (simp add: balances_lookup balance_Num)
  qed
  then show ?thesis by simp
qed

lemma sum_list_filter_le:
  fixes f :: "'a \<Rightarrow> rat"
  assumes "\<forall>x \<in> set xs. 0 \<le> f x"
  shows "sum_list (map f (filter P xs)) \<le> sum_list (map f xs)"
  using assms by (induction xs) auto

lemma sum_by_payer_le:
  fixes f :: "Expense \<Rightarrow> rat"
  assumes "distinct ks" "\<forall>e \<in> set es. 0 \<le> f e"
  shows "sum_list (map (\<lambda>k. sum_list (map f (filter (\<lambda>e. paidBy e = k) es))) ks)
     \<le> sum_list (map f es)"
proof -
  let ?es = "filter (\<lambda>e. paidBy e \<in> set ks) es"
  have "filter (\<lambda>e. paidBy e = k) ?es = filter (\<lambda>e. paidBy e = k) es" if "k \<in> set ks" for k
    using that by (induction es) auto
  then have "sum_list (map (\<lambda>k. sum_list (map f (filter (\<lambda>e. paidBy e = k) es))) ks)
      = sum_list (map (\<lambda>k. sum_list (map f (filter (\<lambda>e. paidBy e = k) ?es))) ks)"
    by (intro arg_cong [where f = sum_list] map_cong) simp_all
  also have "\<dots> = sum_list (map f ?es)"
    by (rule sum_by_payer [OF assms(1)]) auto
  also have "\<dots> \<le> sum_list (map f es)"
    by (rule sum_list_filter_le [OF assms(2)])
  finally show ?thesis .
qed

lemma paid_by_abs_le:
  "sum_list (map abs (paid_by es k)) \<le> sum_list (map (\<lambda>e. \<bar>amount e\<bar>) es)"
proof -
  have "sum_list (map abs (paid_by es k))
      = sum_list (map (\<lambda>e. \<bar>amount e\<bar>) (filter (\<lambda>e. paidBy e = k) es))"
    by (simp add: paid_by_def o_def)
  also have "\<dots> \<le> sum_list (map (\<lambda>e. \<bar>amount e\<bar>) es)"
    by (rule sum_list_filter_le) simp
  finally show ?thesis .
qed

lemma length_paid_by_le: "length (paid_by es k) \<le> length es"
  by (simp add: paid_by_def)

text \<open>
  The balance of one participant against the exact one: the rounding of the participant's
  total, of the average and of the subtraction.
\<close>

lemma balance_num_error:
  fixes es :: "Expense list"
  assumes ps: "ps \<noteq> []"
    and B: "sum_list (map (\<lambda>e. \<bar>amount e\<bar>) es) \<le> B"
    and R: "roundoff (5 * B) \<le> B"
    and m: "of_nat (length es) * roundoff (5 * B) \<le> B"
  shows "\<bar>balance_num es ps k
          - (sum_list (paid_by es k) - totalTripCost es / of_nat (length ps))\<bar>
       \<le> of_nat (length (paid_by es k)) * roundoff (5 * B) + 2 * roundoff (5 * B)"
    and "\<bar>totalTripCost es - sum_list (map amount es)\<bar>
       \<le> of_nat (length es) * roundoff (5 * B)"
    and "\<bar>balance_num es ps k\<bar> \<le> 6 * B"
proof -
  define r where "r = roundoff (5 * B)"
  define r2 where "r2 = roundoff (2 * B)"
  define n where "n = (of_nat (length ps) :: rat)"
  define T where "T = js_sum (paid_by es k)"
  define S where "S = sum_list (paid_by es k)"
  define mk where "mk = (of_nat (length (paid_by es k)) :: rat)"
  define tot where "tot = totalTripCost es"
  define avg where "avg = avgCost tot ps"
  have B0: "0 \<le> B"
  proof -
    have "0 \<le> sum_list (map (\<lambda>e. \<bar>amount e\<bar>) es)" by (rule sum_list_nonneg) auto
    with B show ?thesis by linarith
  qed
  have r2: "0 \<le> r2" "r2 \<le> r"
    unfolding r2_def r_def using B0 by (simp_all add: roundoff_nonneg roundoff_mono)
  have rB: "r \<le> B" using R by (simp add: r_def)
  have mr: "of_nat (length es) * r \<le> B" using m by (simp add: r_def)
  have mk: "0 \<le> mk" "mk \<le> of_nat (length es)"
    unfolding mk_def using length_paid_by_le [of es k] by simp_all
  have mkr: "mk * r2 \<le> mk * r" using mk(1) r2(2) by (rule mult_left_mono [rotated])
  have mkr': "mk * r \<le> of_nat (length es) * r"
    using mk(2) r2 by (intro mult_right_mono) linarith+
  have Sabs: "sum_list (map abs (paid_by es k)) \<le> B"
    using paid_by_abs_le [of es k] B by linarith
  have "\<bar>js_sum (paid_by es k) - sum_list (paid_by es k)\<bar>
      \<le> of_nat (length (paid_by es k)) * roundoff (2 * B)"
    using Sabs mkr mkr' mr by (intro js_sum_error) (simp_all add: mk_def r2_def)
  then have T: "\<bar>T - S\<bar> \<le> mk * r" using mkr by (simp add: T_def S_def mk_def r2_def)
  have SB: "\<bar>S\<bar> \<le> B"
    using sum_list_abs [of "paid_by es k"] Sabs by (simp add: S_def)
  have me: "of_nat (length es) * r2 \<le> of_nat (length es) * r"
    using r2(2) by (intro mult_left_mono) simp_all
  have "\<bar>js_sum (map amount es) - sum_list (map amount es)\<bar>
      \<le> of_nat (length (map amount es)) * roundoff (2 * B)"
    using B me mr by (intro js_sum_error) (simp_all add: o_def r2_def)
  then have tot: "\<bar>tot - sum_list (map amount es)\<bar> \<le> of_nat (length es) * r"
    using me by (simp add: tot_def totalTripCost_js_sum r2_def)
  then show "\<bar>totalTripCost es - sum_list (map amount es)\<bar>
       \<le> of_nat (length es) * roundoff (5 * B)"
    by (simp add: tot_def r_def)
  have "\<bar>sum_list (map amount es)\<bar> \<le> sum_list (map abs (map amount es))"
    by (rule sum_list_abs)
  with B have "\<bar>sum_list (map amount es)\<bar> \<le> B" by (simp add: o_def)
  with tot mr have totB: "\<bar>tot\<bar> \<le> 2 * B" by linarith
  from ps have n1: "1 \<le> n" by (cases ps) (simp_all add: n_def)
  have "\<bar>tot / n\<bar> = \<bar>tot\<bar> / n" using n1 by simp
  also have "\<dots> \<le> \<bar>tot\<bar> / 1" using n1 by (intro divide_left_mono) simp_all
  finally have q: "\<bar>tot / n\<bar> \<le> 2 * B" using totB by simp
  then have "\<bar>fl (tot / n) - tot / n\<bar> \<le> r2" unfolding r2_def by (rule fl_error_le)
  then have avg: "\<bar>avg - tot / n\<bar> \<le> r" using r2(2) by (simp add: avg_def avgCost_def n_def)
  have "\<bar>T - avg\<bar> \<le> 5 * B" using T mkr' mr SB avg q rB by linarith
  then have "\<bar>fl (T - avg) - (T - avg)\<bar> \<le> r" unfolding r_def by (rule fl_error_le)
  then have b: "\<bar>balance_num es ps k - (T - avg)\<bar> \<le> r"
    by (simp add: balance_num_def T_def avg_def tot_def paid_by_def)
  with T avg have "\<bar>balance_num es ps k - (S - tot / n)\<bar> \<le> mk * r + 2 * r" by linarith
  then show "\<bar>balance_num es ps k
          - (sum_list (paid_by es k) - totalTripCost es / of_nat (length ps))\<bar>
       \<le> of_nat (length (paid_by es k)) * roundoff (5 * B) + 2 * roundoff (5 * B)"
    by (simp add: S_def tot_def n_def mk_def r_def)
  from b \<open>\<bar>T - avg\<bar> \<le> 5 * B\<close> rB show "\<bar>balance_num es ps k\<bar> \<le> 6 * B" by linarith
qed

text \<open>
  The sum of the balances against the exact one, which is the sum of what the participants
  paid less the sum of all amounts.
\<close>

lemma balance_sum_near:
  fixes es :: "Expense list"
  assumes ps: "ps \<noteq> []" and dist: "distinct (map name ps)"
    and B: "sum_list (map (\<lambda>e. \<bar>amount e\<bar>) es) \<le> B"
    and R: "roundoff (5 * B) \<le> B"
    and m: "of_nat (length es) * roundoff (5 * B) \<le> B"
  shows "\<bar>sum_list (map (\<lambda>p. balance_num es ps (name p)) ps)
          - (sum_list (map (\<lambda>p. sum_list (paid_by es (name p))) ps) - sum_list (map amount es))\<bar>
       \<le> of_nat (2 * length es + 2 * length ps) * roundoff (5 * B)"
proof -
  define r where "r = roundoff (5 * B)"
  define n where "n = (of_nat (length ps) :: rat)"
  define tot where "tot = totalTripCost es"
  have B0: "0 \<le> B"
  proof -
    have "0 \<le> sum_list (map (\<lambda>e. \<bar>amount e\<bar>) es)" by (rule sum_list_nonneg) auto
    with B show ?thesis by linarith
  qed
  then have r0: "0 \<le> r" by (simp add: r_def roundoff_nonneg)
  have n0: "n \<noteq> 0" using ps by (simp add: n_def)
  have "\<bar>sum_list (map (\<lambda>p. balance_num es ps (name p)) ps)
        - sum_list (map (\<lambda>p. sum_list (paid_by es (name p)) - tot / n) ps)\<bar>
      \<le> sum_list (map (\<lambda>p. of_nat (length (paid_by es (name p))) * r + 2 * r) ps)"
    by (rule sum_list_abs_diff_le)
       (use balance_num_error(1) [OF ps B R m] in \<open>simp add: r_def tot_def n_def\<close>)
  moreover have "sum_list (map (\<lambda>p. sum_list (paid_by es (name p)) - tot / n) ps)
      = sum_list (map (\<lambda>p. sum_list (paid_by es (name p))) ps) - tot"
  proof -
    have "sum_list (map (\<lambda>p. sum_list (paid_by es (name p)) - tot / n) ps)
        = sum_list (map (\<lambda>p. sum_list (paid_by es (name p))) ps)
          - sum_list (map (\<lambda>p. tot / n) ps)"
      by (simp add: sum_list_subtractf)
    moreover have "sum_list (map (\<lambda>p. tot / n) ps) = n * (tot / n)"
      by (simp add: sum_list_triv n_def)
    ultimately show ?thesis using n0 by simp
  qed
  moreover have "sum_list (map (\<lambda>p. of_nat (length (paid_by es (name p))) * r + 2 * r) ps)
      \<le> of_nat (length es) * r + 2 * n * r"
  proof -
    have "sum_list (map (\<lambda>p. of_nat (length (paid_by es (name p))) * r + 2 * r) ps)
        = sum_list (map (\<lambda>p. of_nat (length (paid_by es (name p)))) ps) * r
          + sum_list (map (\<lambda>p. 2 * r) ps)"
      by (simp add: sum_list_addf sum_list_mult_const)
    moreover have "sum_list (map (\<lambda>p. 2 * r) ps) = 2 * n * r"
      by (simp add: sum_list_triv n_def)
    moreover have "sum_list (map (\<lambda>p. of_nat (length (paid_by es (name p)))) ps)
        \<le> (of_nat (length es) :: rat)"
    proof -
      have "sum_list (map (\<lambda>k. sum_list (map (\<lambda>e. 1 :: rat) (filter (\<lambda>e. paidBy e = k) es)))
              (map name ps)) \<le> sum_list (map (\<lambda>e. 1 :: rat) es)"
        by (rule sum_by_payer_le [OF dist]) simp
      then show ?thesis
        by (simp add: o_def paid_by_def sum_list_triv)
    qed
    ultimately show ?thesis using r0 by (simp add: mult_right_mono)
  qed
  moreover have "\<bar>tot - sum_list (map amount es)\<bar> \<le> of_nat (length es) * r"
    using balance_num_error(2) [OF ps B R m] by (simp add: r_def tot_def)
  ultimately have "\<bar>sum_list (map (\<lambda>p. balance_num es ps (name p)) ps)
          - (sum_list (map (\<lambda>p. sum_list (paid_by es (name p))) ps) - sum_list (map amount es))\<bar>
       \<le> 2 * of_nat (length es) * r + 2 * n * r"
    by linarith
  then show ?thesis by (simp add: r_def n_def algebra_simps)
qed

lemma paid_by_names_sum:
  fixes es :: "Expense list"
  assumes "distinct (map name ps)" "paidBy ` set es \<subseteq> name ` set ps"
  shows "sum_list (map (\<lambda>p. sum_list (paid_by es (name p))) ps) = sum_list (map amount es)"
proof -
  have "sum_list (map (\<lambda>k. sum_list (map amount (filter (\<lambda>e. paidBy e = k) es))) (map name ps))
      = sum_list (map amount es)"
    by (rule sum_by_payer [OF assms(1)]) (use assms(2) in simp)
  then show ?thesis by (simp add: o_def paid_by_def)
qed

lemma paid_by_names_sum_le:
  fixes es :: "Expense list"
  assumes "distinct (map name ps)" "\<forall>e \<in> set es. 0 \<le> amount e"
  shows "sum_list (map (\<lambda>p. sum_list (paid_by es (name p))) ps) \<le> sum_list (map amount es)"
proof -
  have "sum_list (map (\<lambda>k. sum_list (map amount (filter (\<lambda>e. paidBy e = k) es))) (map name ps))
      \<le> sum_list (map amount es)"
    by (rule sum_by_payer_le [OF assms])
  then show ?thesis by (simp add: o_def paid_by_def)
qed

text \<open>The magnitudes for which the claims on the balances are proved.\<close>

lemma roundoff_bounds:
  "roundoff (5 * 100000000) \<le> 1 / 10000000"
  "0 \<le> roundoff (5 * 100000000)"
proof -
  have "eta \<le> u53" by (simp add: eta_def u53_def power_increasing [of 53 1075 "2 :: rat"] frac_le)
  then show "roundoff (5 * 100000000) \<le> 1 / 10000000"
    by (simp add: roundoff_def u53_def)
  show "0 \<le> roundoff (5 * 100000000)" by (simp add: roundoff_nonneg)
qed

section \<open>Rounding keeps below a power of two\<close>

lemma pow2_le_imp_le: "pow2 a \<le> pow2 b \<Longrightarrow> a \<le> b"
proof (rule ccontr)
  assume le: "pow2 a \<le> pow2 b" and "\<not> a \<le> b"
  then have "b < a" by simp
  then have "pow2 b < pow2 a"
    unfolding pow2_powi by (rule power_int_strict_increasing) simp
  with le show False by simp
qed

lemma round_even_le: "y \<le> of_int N \<Longrightarrow> round_even y \<le> N"
proof -
  assume y: "y \<le> of_int N"
  then have f: "\<lfloor>y\<rfloor> \<le> N" by (simp add: floor_le_iff)
  show ?thesis
  proof (cases "\<lfloor>y\<rfloor> = N")
    case True
    with y have "y = of_int \<lfloor>y\<rfloor>" using of_int_floor_le [of y] by simp
    then have "y - of_int \<lfloor>y\<rfloor> = 0" by simp
    then show ?thesis using f by (simp add: round_even_def Let_def)
  next
    case False
    with f have "\<lfloor>y\<rfloor> + 1 \<le> N" by simp
    with f show ?thesis by (simp add: round_even_def Let_def)
  qed
qed

lemma round_even_ge: "of_int N \<le> y \<Longrightarrow> N \<le> round_even y"
proof -
  assume "of_int N \<le> y"
  then have "N \<le> \<lfloor>y\<rfloor>" by (simp add: le_floor_iff)
  then show ?thesis by (simp add: round_even_def Let_def)
qed

lemma fl_abs_le_pow2:
  assumes x: "\<bar>x\<bar> \<le> pow2 k" and k: "- 1074 \<le> k"
  shows "\<bar>fl x\<bar> \<le> pow2 k"
proof (cases "x = 0")
  case True
  then show ?thesis using pow2_pos [of k] by (simp add: fl_zero)
next
  case False
  define e where "e = max (ilog2 \<bar>x\<bar>) (- 1022)"
  define q where "q = pow2 (e - 52)"
  define N :: int where "N = 2 ^ nat (k - (e - 52))"
  have q: "0 < q" by (simp add: q_def pow2_pos)
  have fl: "fl x = of_int (round_even (x / q)) * q"
    using False by (simp add: fl_def Let_def q_def e_def)
  from False have "pow2 (ilog2 \<bar>x\<bar>) \<le> \<bar>x\<bar>" by (intro ilog2_le) simp
  with x have "pow2 (ilog2 \<bar>x\<bar>) \<le> pow2 k" by linarith
  then have "ilog2 \<bar>x\<bar> \<le> k" by (rule pow2_le_imp_le)
  with k have ek: "0 \<le> k - (e - 52)" by (simp add: e_def max_def)
  then have "of_int N = pow2 (k - (e - 52))" by (simp add: N_def pow2_nat)
  moreover have "pow2 (k - (e - 52)) * pow2 (e - 52) = pow2 k"
    using pow2_add [of "k - (e - 52)" "e - 52"] by simp
  ultimately have Nq: "of_int N * q = pow2 k"
    by (simp add: q_def)
  then have N: "pow2 k / q = of_int N" using q by (simp add: field_simps)
  have "\<bar>x / q\<bar> = \<bar>x\<bar> / q" using q by simp
  also have "\<dots> \<le> pow2 k / q" using x q by (simp add: divide_right_mono)
  finally have "\<bar>x / q\<bar> \<le> of_int N" by (simp add: N)
  then have "x / q \<le> of_int N" "of_int (- N) \<le> x / q"
    unfolding of_int_minus by linarith+
  then have "round_even (x / q) \<le> N" "- N \<le> round_even (x / q)"
    by (simp_all only: round_even_le round_even_ge)
  then have "\<bar>round_even (x / q)\<bar> \<le> N" by simp
  then have "\<bar>of_int (round_even (x / q)) :: rat\<bar> \<le> of_int N"
    by (metis of_int_abs of_int_le_iff)
  then have "\<bar>of_int (round_even (x / q)) :: rat\<bar> * q \<le> of_int N * q"
    using q by (simp only: mult_le_cancel_right_pos)
  then show ?thesis using q by (simp add: fl abs_mult Nq)
qed

section \<open>The loop: money moved\<close>

lemma drop_at_update:
  "i < length xs \<Longrightarrow> drop i (xs[i := x]) = x # drop (Suc i) xs"
  by (simp add: Cons_nth_drop_Suc [symmetric])

lemma drop_at:
  "i < length xs \<Longrightarrow> drop i xs = xs ! i # drop (Suc i) xs"
  by (simp add: Cons_nth_drop_Suc)

lemma loop_body_fields:
  assumes "loop_cond s"
  shows "debtors (loop_body s) =
           (debtors s)[dIdx s := (fst (debtors s ! dIdx s),
              fl (snd (debtors s ! dIdx s) + transfer_of s))]"
    and "creditors (loop_body s) =
           (creditors s)[cIdx s := (fst (creditors s ! cIdx s),
              fl (snd (creditors s ! cIdx s) - transfer_of s))]"
    and "dIdx (loop_body s) =
           (if \<bar>fl (snd (debtors s ! dIdx s) + transfer_of s)\<bar> < eps
            then dIdx s + 1 else dIdx s)"
    and "cIdx (loop_body s) =
           (if \<bar>fl (snd (creditors s ! cIdx s) - transfer_of s)\<bar> < eps
            then cIdx s + 1 else cIdx s)"
    and "payments (loop_body s) =
           (if eps < transfer_of s
            then payments s @ [\<lparr>payFrom = fst (debtors s ! dIdx s),
                   payTo = fst (creditors s ! cIdx s), payAmount = transfer_of s\<rparr>]
            else payments s)"
  using assms by (simp_all add: loop_body_def Let_def loop_cond_def)

text \<open>What one pass does to the two entries at the indices.\<close>

lemma step_facts:
  assumes c: "loop_cond s" and b: "bounded (pow2 k) s" and k: "- 1074 \<le> k"
  shows "snd (debtors s ! dIdx s) \<le> 0" and "0 \<le> snd (creditors s ! cIdx s)"
    and "\<bar>fl (snd (debtors s ! dIdx s) + transfer_of s)
          - (snd (debtors s ! dIdx s) + transfer_of s)\<bar> \<le> roundoff (pow2 k)"
    and "\<bar>fl (snd (creditors s ! cIdx s) - transfer_of s)
          - (snd (creditors s ! cIdx s) - transfer_of s)\<bar> \<le> roundoff (pow2 k)"
    and "fl (snd (debtors s ! dIdx s) + transfer_of s) \<le> 0"
    and "- pow2 k \<le> fl (snd (debtors s ! dIdx s) + transfer_of s)"
    and "0 \<le> fl (snd (creditors s ! cIdx s) - transfer_of s)"
    and "fl (snd (creditors s ! cIdx s) - transfer_of s) \<le> pow2 k"
proof -
  define d where "d = snd (debtors s ! dIdx s)"
  define w where "w = snd (creditors s ! cIdx s)"
  define t where "t = transfer_of s"
  from c have i: "debtors s ! dIdx s \<in> set (debtors s)"
    and j: "creditors s ! cIdx s \<in> set (creditors s)"
    by (simp_all add: loop_cond_def)
  from b i have d: "- pow2 k \<le> d" "d \<le> 0"
    by (simp_all add: bounded_def list_all_iff d_def)
  from b j have w: "0 \<le> w" "w \<le> pow2 k"
    by (simp_all add: bounded_def list_all_iff w_def)
  have t: "t = min (- d) w" by (simp add: t_def transfer_of_def d_def w_def)
  with d w have t0: "0 \<le> t" "t \<le> - d" "t \<le> w" by simp_all
  have a1: "\<bar>d + t\<bar> \<le> pow2 k" using d t0 by linarith
  have a2: "\<bar>w - t\<bar> \<le> pow2 k" using w t0 by linarith
  have "\<bar>fl (d + t) - (d + t)\<bar> \<le> roundoff (pow2 k)" using a1 by (rule fl_error_le)
  moreover have "\<bar>fl (w - t) - (w - t)\<bar> \<le> roundoff (pow2 k)" using a2 by (rule fl_error_le)
  moreover have "fl (d + t) \<le> 0" using t0 by (intro fl_nonpos) linarith
  moreover have "0 \<le> fl (w - t)" using t0 by (intro fl_nonneg) linarith
  moreover have "\<bar>fl (d + t)\<bar> \<le> pow2 k" using a1 k by (rule fl_abs_le_pow2)
  moreover have "\<bar>fl (w - t)\<bar> \<le> pow2 k" using a2 k by (rule fl_abs_le_pow2)
  ultimately show "snd (debtors s ! dIdx s) \<le> 0" and "0 \<le> snd (creditors s ! cIdx s)"
    and "\<bar>fl (snd (debtors s ! dIdx s) + transfer_of s)
          - (snd (debtors s ! dIdx s) + transfer_of s)\<bar> \<le> roundoff (pow2 k)"
    and "\<bar>fl (snd (creditors s ! cIdx s) - transfer_of s)
          - (snd (creditors s ! cIdx s) - transfer_of s)\<bar> \<le> roundoff (pow2 k)"
    and "fl (snd (debtors s ! dIdx s) + transfer_of s) \<le> 0"
    and "- pow2 k \<le> fl (snd (debtors s ! dIdx s) + transfer_of s)"
    and "0 \<le> fl (snd (creditors s ! cIdx s) - transfer_of s)"
    and "fl (snd (creditors s ! cIdx s) - transfer_of s) \<le> pow2 k"
    using d w unfolding d_def [symmetric] w_def [symmetric] t_def [symmetric]
    by linarith+
qed

lemma bounded_body:
  assumes c: "loop_cond s" and b: "bounded (pow2 k) s" and k: "- 1074 \<le> k"
  shows "bounded (pow2 k) (loop_body s)"
proof -
  note f = step_facts [OF c b k]
  have "list_all (\<lambda>e. - pow2 k \<le> snd e \<and> snd e \<le> 0) (debtors (loop_body s))"
    unfolding list_all_iff loop_body_fields(1) [OF c]
  proof
    fix e
    assume "e \<in> set ((debtors s)[dIdx s := (fst (debtors s ! dIdx s),
              fl (snd (debtors s ! dIdx s) + transfer_of s))])"
    then have "e = (fst (debtors s ! dIdx s), fl (snd (debtors s ! dIdx s) + transfer_of s))
        \<or> e \<in> set (debtors s)"
      using set_update_subset_insert by fastforce
    then show "- pow2 k \<le> snd e \<and> snd e \<le> 0"
      using f(5,6) b by (auto simp add: bounded_def list_all_iff)
  qed
  moreover
  have "list_all (\<lambda>e. 0 \<le> snd e \<and> snd e \<le> pow2 k) (creditors (loop_body s))"
    unfolding list_all_iff loop_body_fields(2) [OF c]
  proof
    fix e
    assume "e \<in> set ((creditors s)[cIdx s := (fst (creditors s ! cIdx s),
              fl (snd (creditors s ! cIdx s) - transfer_of s))])"
    then have "e = (fst (creditors s ! cIdx s), fl (snd (creditors s ! cIdx s) - transfer_of s))
        \<or> e \<in> set (creditors s)"
      using set_update_subset_insert by fastforce
    then show "0 \<le> snd e \<and> snd e \<le> pow2 k"
      using f(7,8) b by (auto simp add: bounded_def list_all_iff)
  qed
  ultimately show ?thesis by (simp add: bounded_def)
qed

lemma bounded_tails:
  assumes "bounded M s"
  shows "0 \<le> sum_list (map (\<lambda>e. - snd e) (drop n (debtors s)))"
    and "0 \<le> sum_list (map snd (drop n (creditors s)))"
proof -
  have "\<forall>e \<in> set (drop n (debtors s)). 0 \<le> - snd e"
    using assms by (auto simp add: bounded_def list_all_iff dest: in_set_dropD)
  then show "0 \<le> sum_list (map (\<lambda>e. - snd e) (drop n (debtors s)))"
    by (intro sum_list_nonneg) auto
  have "\<forall>e \<in> set (drop n (creditors s)). 0 \<le> snd e"
    using assms by (auto simp add: bounded_def list_all_iff dest: in_set_dropD)
  then show "0 \<le> sum_list (map snd (drop n (creditors s)))"
    by (intro sum_list_nonneg) auto
qed

lemma transfer_step_lower:
  fixes d w Dt Ct e r d' w' t :: rat
  assumes "0 < e" "0 \<le> r" "d \<le> 0" "0 \<le> w" "0 \<le> Dt" "0 \<le> Ct"
    and t: "t = min (- d) w"
    and "\<bar>d' - (d + t)\<bar> \<le> r" "\<bar>w' - (w - t)\<bar> \<le> r" "d' \<le> 0" "0 \<le> w'"
    and "t = - d \<Longrightarrow> d' = 0" "t = w \<Longrightarrow> w' = 0"
  shows "min (- d + Dt) (w + Ct)
           - (e + r) * ((if \<bar>d'\<bar> < e then 1 else 0) + (if \<bar>w'\<bar> < e then 1 else 0))
         \<le> (if e < t then t else 0)
           + min ((if \<bar>d'\<bar> < e then 0 else - d') + Dt) ((if \<bar>w'\<bar> < e then 0 else w') + Ct)"
proof (cases "- d \<le> w")
  case True
  with t assms(12) have td: "t = - d" "d' = 0" by simp_all
  show ?thesis
  proof (cases "\<bar>w'\<bar> < e")
    case True
    with td assms(1-11) show ?thesis
      by (simp add: algebra_simps) linarith
  next
    case False
    with td assms(1-11) show ?thesis
      by (simp add: algebra_simps) linarith
  qed
next
  case False
  with t assms(13) have tw: "t = w" "w' = 0" by simp_all
  show ?thesis
  proof (cases "\<bar>d'\<bar> < e")
    case True
    with tw assms(1-11) show ?thesis
      by (simp add: algebra_simps) linarith
  next
    case False
    with tw assms(1-11) show ?thesis
      by (simp add: algebra_simps) linarith
  qed
qed

lemma loop_body_remaining_eq:
  assumes "loop_cond s"
  shows "of_nat (remaining s) =
     (of_nat (remaining (loop_body s)) :: rat)
       + ((if \<bar>fl (snd (debtors s ! dIdx s) + transfer_of s)\<bar> < eps then 1 else 0)
       + (if \<bar>fl (snd (creditors s ! cIdx s) - transfer_of s)\<bar> < eps then 1 else 0))"
proof -
  from assms have "dIdx s < length (debtors s)" "cIdx s < length (creditors s)"
    by (simp_all add: loop_cond_def)
  then show ?thesis
    by (simp add: remaining_def loop_body_fields [OF assms] loop_body_lengths
        Suc_diff_Suc of_nat_diff)
qed

text \<open>
  One pass: the payments pushed and the smaller of debt and credit left lose at most the
  tolerance and one rounding error for each index that advances.
\<close>

lemma loop_body_pushed_lower:
  assumes c: "loop_cond s" and b: "bounded (pow2 k) s" and k: "- 1074 \<le> k"
  shows "pushed (payments s) + min (debt_left s) (credit_left s)
           - (eps + roundoff (pow2 k)) * of_nat (remaining s)
         \<le> pushed (payments (loop_body s))
             + min (debt_left (loop_body s)) (credit_left (loop_body s))
             - (eps + roundoff (pow2 k)) * of_nat (remaining (loop_body s))"
proof -
  define d where "d = snd (debtors s ! dIdx s)"
  define w where "w = snd (creditors s ! cIdx s)"
  define t where "t = transfer_of s"
  define d' where "d' = fl (d + t)"
  define w' where "w' = fl (w - t)"
  define Dt where "Dt = sum_list (map (\<lambda>e. - snd e) (drop (Suc (dIdx s)) (debtors s)))"
  define Ct where "Ct = sum_list (map snd (drop (Suc (cIdx s)) (creditors s)))"
  define r where "r = roundoff (pow2 k)"
  define kk :: rat where "kk = (if \<bar>d'\<bar> < eps then 1 else 0) + (if \<bar>w'\<bar> < eps then 1 else 0)"
  from c have i: "dIdx s < length (debtors s)" and j: "cIdx s < length (creditors s)"
    by (simp_all add: loop_cond_def)
  note f = step_facts [OF c b k, folded d_def w_def t_def, folded d'_def w'_def r_def]
  have r0: "0 \<le> r" unfolding r_def using pow2_pos [of k] by (intro roundoff_nonneg) simp
  have t: "t = min (- d) w" by (simp add: t_def transfer_of_def d_def w_def)
  have z1: "t = - d \<Longrightarrow> d' = 0" by (simp add: d'_def fl_zero)
  have z2: "t = w \<Longrightarrow> w' = 0" by (simp add: w'_def fl_zero)
  have tails: "0 \<le> Dt" "0 \<le> Ct"
    unfolding Dt_def Ct_def using bounded_tails [OF b] by simp_all
  have step: "min (- d + Dt) (w + Ct) - (eps + r) * kk
         \<le> (if eps < t then t else 0)
           + min ((if \<bar>d'\<bar> < eps then 0 else - d') + Dt)
                 ((if \<bar>w'\<bar> < eps then 0 else w') + Ct)"
    unfolding kk_def
    by (rule transfer_step_lower [OF eps_pos r0 f(1,2) tails t f(3,4,5,7) z1 z2])
  have p: "pushed (payments (loop_body s))
      = pushed (payments s) + (if eps < t then t else 0)"
    by (simp add: pushed_def loop_body_fields(5) [OF c] t_def)
  have m: "debt_left s = - d + Dt" "credit_left s = w + Ct"
    by (simp_all add: debt_left_def credit_left_def drop_at [OF i] drop_at [OF j]
        d_def w_def Dt_def Ct_def)
  have m': "debt_left (loop_body s) = (if \<bar>d'\<bar> < eps then 0 else - d') + Dt"
    "credit_left (loop_body s) = (if \<bar>w'\<bar> < eps then 0 else w') + Ct"
    using i j
    by (simp_all add: debt_left_def credit_left_def loop_body_fields [OF c]
        drop_at_update d_def w_def t_def d'_def w'_def Dt_def Ct_def)
  have rem: "of_nat (remaining s) = (of_nat (remaining (loop_body s)) :: rat) + kk"
    unfolding loop_body_remaining_eq [OF c] kk_def d'_def w'_def d_def w_def t_def ..
  show ?thesis
    unfolding p m m' rem r_def [symmetric] using step by (simp add: algebra_simps)
qed

lemma bounded_min_left:
  assumes "\<not> loop_cond s"
  shows "min (debt_left s) (credit_left s) \<le> 0"
proof -
  from assms have "debt_left s = 0 \<or> credit_left s = 0"
    by (auto simp add: loop_cond_def debt_left_def credit_left_def)
  then show ?thesis by (auto simp add: min_def)
qed

lemma loop_pushed_lower:
  assumes "bounded (pow2 k) s" and "- 1074 \<le> k"
  shows "pushed (payments s) + min (debt_left s) (credit_left s)
           - (eps + roundoff (pow2 k)) * of_nat (remaining s)
         \<le> pushed (payments (loop s))"
  using assms
proof (induction s rule: loop.induct)
  case (1 s)
  show ?case
  proof (cases "loop_cond s")
    case True
    have eq: "loop s = loop (loop_body s)"
      using True by (simp add: loop.simps [of s])
    have b': "bounded (pow2 k) (loop_body s)"
      using True "1.prems" by (rule bounded_body)
    have r0: "0 \<le> (eps + roundoff (pow2 k)) * of_nat (remaining (loop (loop_body s)))"
      using eps_pos pow2_pos [of k] by (intro mult_nonneg_nonneg add_nonneg_nonneg roundoff_nonneg) simp_all
    from "1.IH" [OF True b' "1.prems"(2)]
      loop_body_pushed_lower [OF True "1.prems"]
    show ?thesis unfolding eq by linarith
  next
    case False
    then have eq: "loop s = s" by (simp add: loop.simps [of s])
    have "0 \<le> (eps + roundoff (pow2 k)) * of_nat (remaining s)"
      using eps_pos pow2_pos [of k] by (intro mult_nonneg_nonneg add_nonneg_nonneg roundoff_nonneg) simp_all
    with bounded_min_left [OF False] show ?thesis unfolding eq by linarith
  qed
qed

lemma paid_to_snoc:
  "paid_to k (pays @ [q]) = paid_to k pays + (if payTo q = k then payAmount q else 0)"
  by (simp add: paid_to_def)

lemma paid_from_snoc:
  "paid_from k (pays @ [q]) = paid_from k pays + (if payFrom q = k then payAmount q else 0)"
  by (simp add: paid_from_def)

lemma transfer_nonneg:
  assumes "loop_cond s" "bounded (pow2 k) s" "- 1074 \<le> k"
  shows "0 \<le> transfer_of s"
  using step_facts(1,2) [OF assms] by (simp add: transfer_of_def)

text \<open>
  What a creditor receives from a state on is at most what the entry holds there, up to
  one rounding error for each pass; summed over the creditors, the excess is at most one
  rounding error for each pass of the loop.
\<close>

lemma loop_body_paid_to:
  assumes c: "loop_cond s" and b: "bounded (pow2 k) s" and k: "- 1074 \<le> k"
    and dist: "distinct (map fst (creditors s))"
    and j: "j < length (creditors s)"
  shows "paid_to (fst (creditors s ! j)) (payments (loop_body s))
           + (if cIdx (loop_body s) \<le> j then snd (creditors (loop_body s) ! j) else 0)
         \<le> paid_to (fst (creditors s ! j)) (payments s)
           + (if cIdx s \<le> j then snd (creditors s ! j) else 0)
           + (if j = cIdx s then roundoff (pow2 k) else 0)"
proof (cases "j = cIdx s")
  case True
  define w where "w = snd (creditors s ! cIdx s)"
  define t where "t = transfer_of s"
  define w' where "w' = fl (w - t)"
  note f = step_facts [OF c b k, folded w_def t_def, folded w'_def]
  have t0: "0 \<le> t" unfolding t_def using c b k by (rule transfer_nonneg)
  have "paid_to (fst (creditors s ! j)) (payments (loop_body s))
      = paid_to (fst (creditors s ! j)) (payments s) + (if eps < t then t else 0)"
    using True by (simp add: loop_body_fields(5) [OF c] paid_to_snoc t_def)
  moreover have "(if cIdx (loop_body s) \<le> j then snd (creditors (loop_body s) ! j) else 0)
      = (if \<bar>w'\<bar> < eps then 0 else w')"
    using True j by (simp add: loop_body_fields [OF c] w'_def w_def t_def)
  moreover have "(if cIdx s \<le> j then snd (creditors s ! j) else 0) = w"
    using True by (simp add: w_def)
  moreover have "(if eps < t then t else 0) + (if \<bar>w'\<bar> < eps then 0 else w') \<le> w + roundoff (pow2 k)"
    using f(4,7) t0 by (simp split: if_splits) linarith
  ultimately show ?thesis using True by simp
next
  case False
  from c have cj: "cIdx s < length (creditors s)" by (simp add: loop_cond_def)
  have "fst (creditors s ! cIdx s) \<noteq> fst (creditors s ! j)"
    using dist j cj False nth_eq_iff_index_eq [of "map fst (creditors s)" "cIdx s" j]
    by simp
  then have "paid_to (fst (creditors s ! j)) (payments (loop_body s))
      = paid_to (fst (creditors s ! j)) (payments s)"
    by (simp add: loop_body_fields(5) [OF c] paid_to_snoc)
  moreover have "(if cIdx (loop_body s) \<le> j then snd (creditors (loop_body s) ! j) else 0)
      = (if cIdx s \<le> j then snd (creditors s ! j) else 0)"
    using False by (auto simp add: loop_body_fields [OF c])
  ultimately show ?thesis using False by simp
qed

lemma loop_paid_to_upper:
  assumes "bounded (pow2 k) s" and "- 1074 \<le> k" and "distinct (map fst (creditors s))"
  shows "(\<Sum>j = 0..<length (creditors s).
            max 0 (paid_to (fst (creditors s ! j)) (payments (loop s))
                   - paid_to (fst (creditors s ! j)) (payments s)
                   - (if cIdx s \<le> j then snd (creditors s ! j) else 0)))
         \<le> roundoff (pow2 k) * of_nat (remaining s)"
  using assms
proof (induction s rule: loop.induct)
  case (1 s)
  define r where "r = roundoff (pow2 k)"
  have r0: "0 \<le> r" unfolding r_def using pow2_pos [of k] by (intro roundoff_nonneg) simp
  show ?case
  proof (cases "loop_cond s")
    case False
    then have eq: "loop s = s" by (simp add: loop.simps [of s])
    have "max 0 (paid_to (fst (creditors s ! j)) (payments s)
                   - paid_to (fst (creditors s ! j)) (payments s)
                   - (if cIdx s \<le> j then snd (creditors s ! j) else 0)) = 0"
      if "j \<in> {0..<length (creditors s)}" for j
    proof -
      from that have "creditors s ! j \<in> set (creditors s)" by simp
      with "1.prems"(1) have "0 \<le> snd (creditors s ! j)"
        by (simp add: bounded_def list_all_iff)
      then show ?thesis by simp
    qed
    then have "(\<Sum>j = 0..<length (creditors s).
            max 0 (paid_to (fst (creditors s ! j)) (payments s)
                   - paid_to (fst (creditors s ! j)) (payments s)
                   - (if cIdx s \<le> j then snd (creditors s ! j) else 0))) = 0"
      by (rule sum.neutral [OF ballI])
    moreover have "0 \<le> r * of_nat (remaining s)" using r0 by simp
    ultimately show ?thesis unfolding eq r_def by simp
  next
    case True
    let ?s' = "loop_body s"
    have eq: "loop s = loop ?s'" using True by (simp add: loop.simps [of s])
    have b': "bounded (pow2 k) ?s'" using True "1.prems"(1,2) by (rule bounded_body)
    have keys: "map fst (creditors ?s') = map fst (creditors s)"
      by (rule loop_body_keys(2) [OF True])
    have len: "length (creditors ?s') = length (creditors s)" by (rule loop_body_lengths)
    have key: "fst (creditors ?s' ! j) = fst (creditors s ! j)" if "j < length (creditors s)" for j
      using that keys len by (metis nth_map)
    from "1.prems"(3) keys have d': "distinct (map fst (creditors ?s'))" by simp
    define X where "X j = paid_to (fst (creditors s ! j)) (payments (loop ?s'))" for j
    define g where "g j = paid_to (fst (creditors s ! j)) (payments s)
        + (if cIdx s \<le> j then snd (creditors s ! j) else 0)" for j
    define g' where "g' j = paid_to (fst (creditors s ! j)) (payments ?s')
        + (if cIdx ?s' \<le> j then snd (creditors ?s' ! j) else 0)" for j
    have ih: "(\<Sum>j = 0..<length (creditors s). max 0 (X j - g' j))
        \<le> r * of_nat (remaining ?s')"
    proof -
      have "(\<Sum>j = 0..<length (creditors s). max 0 (X j - g' j))
          = (\<Sum>j = 0..<length (creditors ?s').
            max 0 (paid_to (fst (creditors ?s' ! j)) (payments (loop ?s'))
                   - paid_to (fst (creditors ?s' ! j)) (payments ?s')
                   - (if cIdx ?s' \<le> j then snd (creditors ?s' ! j) else 0)))"
        unfolding len by (rule sum.cong) (simp_all add: key X_def g'_def algebra_simps)
      with "1.IH" [OF True b' "1.prems"(2) d'] show ?thesis by (simp add: r_def)
    qed
    have step: "g' j \<le> g j + (if j = cIdx s then r else 0)" if "j < length (creditors s)" for j
      unfolding g_def g'_def r_def
      by (rule loop_body_paid_to [OF True "1.prems" that])
    have "(\<Sum>j = 0..<length (creditors s). max 0 (X j - g j))
        \<le> (\<Sum>j = 0..<length (creditors s). max 0 (X j - g' j) + (if j = cIdx s then r else 0))"
    proof (rule sum_mono)
      fix j assume "j \<in> {0..<length (creditors s)}"
      then have "g' j \<le> g j + (if j = cIdx s then r else 0)" by (simp add: step)
      with r0 show "max 0 (X j - g j) \<le> max 0 (X j - g' j) + (if j = cIdx s then r else 0)"
        by (simp split: if_splits)
    qed
    also have "\<dots> = (\<Sum>j = 0..<length (creditors s). max 0 (X j - g' j))
        + (\<Sum>j = 0..<length (creditors s). if j = cIdx s then r else 0)"
      by (rule sum.distrib)
    also have "(\<Sum>j = 0..<length (creditors s). if j = cIdx s then r else 0) \<le> r"
      using r0 by (simp add: sum.delta)
    finally have "(\<Sum>j = 0..<length (creditors s). max 0 (X j - g j))
        \<le> r * of_nat (remaining ?s') + r"
      using ih by linarith
    moreover have "r * of_nat (remaining ?s') + r \<le> r * of_nat (remaining s)"
    proof -
      from loop_body_remaining [OF True] have "Suc (remaining ?s') \<le> remaining s" by simp
      then have "(of_nat (Suc (remaining ?s')) :: rat) \<le> of_nat (remaining s)"
        by (simp only: of_nat_le_iff)
      then have "r * of_nat (Suc (remaining ?s')) \<le> r * of_nat (remaining s)"
        using r0 by (rule mult_left_mono)
      then show ?thesis by (simp add: algebra_simps)
    qed
    ultimately show ?thesis
      unfolding eq X_def g_def r_def by (simp add: algebra_simps)
  qed
qed

text \<open>The same for what a debtor pays.\<close>

lemma loop_body_paid_from:
  assumes c: "loop_cond s" and b: "bounded (pow2 k) s" and k: "- 1074 \<le> k"
    and dist: "distinct (map fst (debtors s))"
    and j: "j < length (debtors s)"
  shows "paid_from (fst (debtors s ! j)) (payments (loop_body s))
           + (if dIdx (loop_body s) \<le> j then - snd (debtors (loop_body s) ! j) else 0)
         \<le> paid_from (fst (debtors s ! j)) (payments s)
           + (if dIdx s \<le> j then - snd (debtors s ! j) else 0)
           + (if j = dIdx s then roundoff (pow2 k) else 0)"
proof (cases "j = dIdx s")
  case True
  define w where "w = snd (debtors s ! dIdx s)"
  define t where "t = transfer_of s"
  define w' where "w' = fl (w + t)"
  note f = step_facts [OF c b k, folded w_def t_def, folded w'_def]
  have t0: "0 \<le> t" unfolding t_def using c b k by (rule transfer_nonneg)
  have "paid_from (fst (debtors s ! j)) (payments (loop_body s))
      = paid_from (fst (debtors s ! j)) (payments s) + (if eps < t then t else 0)"
    using True by (simp add: loop_body_fields(5) [OF c] paid_from_snoc t_def)
  moreover have "(if dIdx (loop_body s) \<le> j then - snd (debtors (loop_body s) ! j) else 0)
      = (if \<bar>w'\<bar> < eps then 0 else - w')"
    using True j by (simp add: loop_body_fields [OF c] w'_def w_def t_def)
  moreover have "(if dIdx s \<le> j then - snd (debtors s ! j) else 0) = - w"
    using True by (simp add: w_def)
  moreover have "(if eps < t then t else 0) + (if \<bar>w'\<bar> < eps then 0 else - w') \<le> - w + roundoff (pow2 k)"
    using f(3,5) t0 by (simp split: if_splits) linarith
  ultimately show ?thesis using True by simp
next
  case False
  from c have cj: "dIdx s < length (debtors s)" by (simp add: loop_cond_def)
  have "fst (debtors s ! dIdx s) \<noteq> fst (debtors s ! j)"
    using dist j cj False nth_eq_iff_index_eq [of "map fst (debtors s)" "dIdx s" j]
    by simp
  then have "paid_from (fst (debtors s ! j)) (payments (loop_body s))
      = paid_from (fst (debtors s ! j)) (payments s)"
    by (simp add: loop_body_fields(5) [OF c] paid_from_snoc)
  moreover have "(if dIdx (loop_body s) \<le> j then - snd (debtors (loop_body s) ! j) else 0)
      = (if dIdx s \<le> j then - snd (debtors s ! j) else 0)"
    using False by (auto simp add: loop_body_fields [OF c])
  ultimately show ?thesis using False by simp
qed

lemma loop_paid_from_upper:
  assumes "bounded (pow2 k) s" and "- 1074 \<le> k" and "distinct (map fst (debtors s))"
  shows "(\<Sum>j = 0..<length (debtors s).
            max 0 (paid_from (fst (debtors s ! j)) (payments (loop s))
                   - paid_from (fst (debtors s ! j)) (payments s)
                   - (if dIdx s \<le> j then - snd (debtors s ! j) else 0)))
         \<le> roundoff (pow2 k) * of_nat (remaining s)"
  using assms
proof (induction s rule: loop.induct)
  case (1 s)
  define r where "r = roundoff (pow2 k)"
  have r0: "0 \<le> r" unfolding r_def using pow2_pos [of k] by (intro roundoff_nonneg) simp
  show ?case
  proof (cases "loop_cond s")
    case False
    then have eq: "loop s = s" by (simp add: loop.simps [of s])
    have "max 0 (paid_from (fst (debtors s ! j)) (payments s)
                   - paid_from (fst (debtors s ! j)) (payments s)
                   - (if dIdx s \<le> j then - snd (debtors s ! j) else 0)) = 0"
      if "j \<in> {0..<length (debtors s)}" for j
    proof -
      from that have "debtors s ! j \<in> set (debtors s)" by simp
      with "1.prems"(1) have "snd (debtors s ! j) \<le> 0"
        by (simp add: bounded_def list_all_iff)
      then show ?thesis by simp
    qed
    then have "(\<Sum>j = 0..<length (debtors s).
            max 0 (paid_from (fst (debtors s ! j)) (payments s)
                   - paid_from (fst (debtors s ! j)) (payments s)
                   - (if dIdx s \<le> j then - snd (debtors s ! j) else 0))) = 0"
      by (rule sum.neutral [OF ballI])
    moreover have "0 \<le> r * of_nat (remaining s)" using r0 by simp
    ultimately show ?thesis unfolding eq r_def by simp
  next
    case True
    let ?s' = "loop_body s"
    have eq: "loop s = loop ?s'" using True by (simp add: loop.simps [of s])
    have b': "bounded (pow2 k) ?s'" using True "1.prems"(1,2) by (rule bounded_body)
    have keys: "map fst (debtors ?s') = map fst (debtors s)"
      by (rule loop_body_keys(1) [OF True])
    have len: "length (debtors ?s') = length (debtors s)" by (rule loop_body_lengths(1))
    have key: "fst (debtors ?s' ! j) = fst (debtors s ! j)" if "j < length (debtors s)" for j
      using that keys len by (metis nth_map)
    from "1.prems"(3) keys have d': "distinct (map fst (debtors ?s'))" by simp
    define X where "X j = paid_from (fst (debtors s ! j)) (payments (loop ?s'))" for j
    define g where "g j = paid_from (fst (debtors s ! j)) (payments s)
        + (if dIdx s \<le> j then - snd (debtors s ! j) else 0)" for j
    define g' where "g' j = paid_from (fst (debtors s ! j)) (payments ?s')
        + (if dIdx ?s' \<le> j then - snd (debtors ?s' ! j) else 0)" for j
    have ih: "(\<Sum>j = 0..<length (debtors s). max 0 (X j - g' j))
        \<le> r * of_nat (remaining ?s')"
    proof -
      have "(\<Sum>j = 0..<length (debtors s). max 0 (X j - g' j))
          = (\<Sum>j = 0..<length (debtors ?s').
            max 0 (paid_from (fst (debtors ?s' ! j)) (payments (loop ?s'))
                   - paid_from (fst (debtors ?s' ! j)) (payments ?s')
                   - (if dIdx ?s' \<le> j then - snd (debtors ?s' ! j) else 0)))"
        unfolding len by (rule sum.cong) (simp_all add: key X_def g'_def algebra_simps)
      with "1.IH" [OF True b' "1.prems"(2) d'] show ?thesis by (simp add: r_def)
    qed
    have step: "g' j \<le> g j + (if j = dIdx s then r else 0)" if "j < length (debtors s)" for j
      unfolding g_def g'_def r_def
      by (rule loop_body_paid_from [OF True "1.prems" that])
    have "(\<Sum>j = 0..<length (debtors s). max 0 (X j - g j))
        \<le> (\<Sum>j = 0..<length (debtors s). max 0 (X j - g' j) + (if j = dIdx s then r else 0))"
    proof (rule sum_mono)
      fix j assume "j \<in> {0..<length (debtors s)}"
      then have "g' j \<le> g j + (if j = dIdx s then r else 0)" by (simp add: step)
      with r0 show "max 0 (X j - g j) \<le> max 0 (X j - g' j) + (if j = dIdx s then r else 0)"
        by (simp split: if_splits)
    qed
    also have "\<dots> = (\<Sum>j = 0..<length (debtors s). max 0 (X j - g' j))
        + (\<Sum>j = 0..<length (debtors s). if j = dIdx s then r else 0)"
      by (rule sum.distrib)
    also have "(\<Sum>j = 0..<length (debtors s). if j = dIdx s then r else 0) \<le> r"
      using r0 by (simp add: sum.delta)
    finally have "(\<Sum>j = 0..<length (debtors s). max 0 (X j - g j))
        \<le> r * of_nat (remaining ?s') + r"
      using ih by linarith
    moreover have "r * of_nat (remaining ?s') + r \<le> r * of_nat (remaining s)"
    proof -
      from loop_body_remaining [OF True] have "Suc (remaining ?s') \<le> remaining s" by simp
      then have "(of_nat (Suc (remaining ?s')) :: rat) \<le> of_nat (remaining s)"
        by (simp only: of_nat_le_iff)
      then have "r * of_nat (Suc (remaining ?s')) \<le> r * of_nat (remaining s)"
        using r0 by (rule mult_left_mono)
      then show ?thesis by (simp add: algebra_simps)
    qed
    ultimately show ?thesis
      unfolding eq X_def g_def r_def by (simp add: algebra_simps)
  qed
qed

section \<open>The loop from its initial state\<close>

lemma excess_bounds:
  fixes e :: "nat \<Rightarrow> rat"
  assumes "(\<Sum>j = 0..<n. max 0 (e j)) \<le> R"
  shows "(\<Sum>j = 0..<n. e j) \<le> R"
    and "j < n \<Longrightarrow> e j \<le> R"
    and "j < n \<Longrightarrow> - e j \<le> R - (\<Sum>j = 0..<n. e j)"
proof -
  have "(\<Sum>j = 0..<n. e j) \<le> (\<Sum>j = 0..<n. max 0 (e j))"
    by (rule sum_mono) simp
  with assms show "(\<Sum>j = 0..<n. e j) \<le> R" by linarith
  assume j: "j < n"
  have "max 0 (e j) \<le> (\<Sum>j = 0..<n. max 0 (e j))"
    using j by (intro member_le_sum) simp_all
  with assms show "e j \<le> R" by linarith
  have "max 0 (e j) - e j \<le> (\<Sum>j = 0..<n. max 0 (e j) - e j)"
    using j by (intro member_le_sum) simp_all
  also have "\<dots> = (\<Sum>j = 0..<n. max 0 (e j)) - (\<Sum>j = 0..<n. e j)"
    by (rule sum_subtractf)
  finally show "- e j \<le> R - (\<Sum>j = 0..<n. e j)" using assms by linarith
qed

lemma sum_nth_map:
  fixes h :: "'a \<Rightarrow> rat"
  shows "(\<Sum>i = 0..<length xs. h (xs ! i)) = sum_list (map h xs)"
proof -
  have "sum_list (map h xs) = (\<Sum>i = 0..<length (map h xs). map h xs ! i)"
    by (rule sum_list_sum_nth)
  also have "\<dots> = (\<Sum>i = 0..<length xs. h (xs ! i))"
    by (rule sum.cong) simp_all
  finally show ?thesis by simp
qed

lemma sum_list_neg:
  fixes f :: "'a \<Rightarrow> rat"
  shows "sum_list (map (\<lambda>x. - f x) xs) = - sum_list (map f xs)"
  by (induction xs) simp_all

lemma loop_payments_keys:
  assumes "payments s = []" and "p \<in> set (payments (loop s))"
  shows "payFrom p \<in> fst ` set (debtors s)" and "payTo p \<in> fst ` set (creditors s)"
proof -
  have "list_all (payment_ok (debtors s) (creditors s)) (payments (loop s))"
    by (rule loop_payments_ok) (simp add: assms(1))
  with assms(2) have "payment_ok (debtors s) (creditors s) p" by (simp add: list_all_iff)
  then show "payFrom p \<in> fst ` set (debtors s)" and "payTo p \<in> fst ` set (creditors s)"
    by (simp_all add: payment_ok_def)
qed

lemma pushed_by_payee:
  assumes "payments s = []" and "distinct (map fst (creditors s))"
  shows "(\<Sum>j = 0..<length (creditors s). paid_to (fst (creditors s ! j)) (payments (loop s)))
     = pushed (payments (loop s))"
proof -
  have "(\<Sum>j = 0..<length (creditors s). paid_to (fst (creditors s ! j)) (payments (loop s)))
      = sum_list (map (\<lambda>e. paid_to (fst e) (payments (loop s))) (creditors s))"
    by (rule sum_nth_map)
  also have "\<dots> = sum_list (map (\<lambda>k. sum_list (map payAmount
        (filter (\<lambda>q. payTo q = k) (payments (loop s))))) (map fst (creditors s)))"
    by (simp add: o_def paid_to_def)
  also have "\<dots> = sum_list (map payAmount (payments (loop s)))"
    using assms(2) loop_payments_keys(2) [OF assms(1)] by (intro sum_by_key) auto
  finally show ?thesis by (simp add: pushed_def)
qed

lemma pushed_by_payer:
  assumes "payments s = []" and "distinct (map fst (debtors s))"
  shows "(\<Sum>j = 0..<length (debtors s). paid_from (fst (debtors s ! j)) (payments (loop s)))
     = pushed (payments (loop s))"
proof -
  have "(\<Sum>j = 0..<length (debtors s). paid_from (fst (debtors s ! j)) (payments (loop s)))
      = sum_list (map (\<lambda>e. paid_from (fst e) (payments (loop s))) (debtors s))"
    by (rule sum_nth_map)
  also have "\<dots> = sum_list (map (\<lambda>k. sum_list (map payAmount
        (filter (\<lambda>q. payFrom q = k) (payments (loop s))))) (map fst (debtors s)))"
    by (simp add: o_def paid_from_def)
  also have "\<dots> = sum_list (map payAmount (payments (loop s)))"
    using assms(2) loop_payments_keys(1) [OF assms(1)] by (intro sum_by_key) auto
  finally show ?thesis by (simp add: pushed_def)
qed

text \<open>
  The loop entered with no payment and both indices at zero, on arrays with distinct keys
  and entries of size at most \<open>2\<^sup>k\<close>: \<open>D\<close> and \<open>C\<close> are the debt and the credit of the
  arrays, \<open>q\<close> the number of their entries, \<open>r\<close> the rounding error of one pass.
\<close>

lemma loop_totals:
  assumes init: "payments s = []" "dIdx s = 0" "cIdx s = 0"
    and b: "bounded (pow2 k) s" and k: "- 1074 \<le> k"
    and dd: "distinct (map fst (debtors s))" and dc: "distinct (map fst (creditors s))"
  defines "pays \<equiv> payments (loop s)"
    and "D \<equiv> sum_list (map (\<lambda>e. - snd e) (debtors s))"
    and "C \<equiv> sum_list (map snd (creditors s))"
    and "q \<equiv> of_nat (length (debtors s) + length (creditors s))"
    and "r \<equiv> roundoff (pow2 k)"
  shows "min D C - (eps + r) * q \<le> pushed pays"
    and "pushed pays \<le> C + r * q"
    and "j < length (creditors s) \<Longrightarrow>
           paid_to (fst (creditors s ! j)) pays - snd (creditors s ! j) \<le> r * q"
    and "j < length (creditors s) \<Longrightarrow>
           snd (creditors s ! j) - paid_to (fst (creditors s ! j)) pays
             \<le> C - pushed pays + r * q"
    and "i < length (debtors s) \<Longrightarrow>
           paid_from (fst (debtors s ! i)) pays + snd (debtors s ! i) \<le> r * q"
    and "i < length (debtors s) \<Longrightarrow>
           - (paid_from (fst (debtors s ! i)) pays + snd (debtors s ! i))
             \<le> D - pushed pays + r * q"
proof -
  have rem: "of_nat (remaining s) = q"
    by (simp add: remaining_def init q_def)
  have left: "debt_left s = D" "credit_left s = C"
    by (simp_all add: debt_left_def credit_left_def init D_def C_def)
  from loop_pushed_lower [OF b k]
  show "min D C - (eps + r) * q \<le> pushed pays"
    by (simp add: init pushed_def left rem pays_def r_def)
  define ec where "ec j = paid_to (fst (creditors s ! j)) pays - snd (creditors s ! j)" for j
  define ed where "ed i = paid_from (fst (debtors s ! i)) pays + snd (debtors s ! i)" for i
  have c1: "(\<Sum>j = 0..<length (creditors s). max 0 (ec j)) \<le> r * q"
    using loop_paid_to_upper [OF b k dc]
    by (simp add: init paid_to_def ec_def pays_def rem r_def)
  have d1: "(\<Sum>i = 0..<length (debtors s). max 0 (ed i)) \<le> r * q"
    using loop_paid_from_upper [OF b k dd]
    by (simp add: init paid_from_def ed_def pays_def rem r_def)
  have c2: "(\<Sum>j = 0..<length (creditors s). ec j) = pushed pays - C"
    unfolding ec_def sum_subtractf pays_def pushed_by_payee [OF init(1) dc]
    by (simp add: sum_nth_map C_def)
  have d2: "(\<Sum>i = 0..<length (debtors s). ed i) = pushed pays - D"
    unfolding ed_def sum.distrib pays_def pushed_by_payer [OF init(1) dd]
    by (simp add: sum_nth_map D_def sum_list_neg)
  from excess_bounds(1) [OF c1] c2 show "pushed pays \<le> C + r * q" by linarith
  show "paid_to (fst (creditors s ! j)) pays - snd (creditors s ! j) \<le> r * q"
    if "j < length (creditors s)"
    using excess_bounds(2) [OF c1 that] by (simp add: ec_def)
  show "snd (creditors s ! j) - paid_to (fst (creditors s ! j)) pays \<le> C - pushed pays + r * q"
    if "j < length (creditors s)"
    using excess_bounds(3) [OF c1 that] c2 by (simp add: ec_def)
  show "paid_from (fst (debtors s ! i)) pays + snd (debtors s ! i) \<le> r * q"
    if "i < length (debtors s)"
    using excess_bounds(2) [OF d1 that] by (simp add: ed_def)
  show "- (paid_from (fst (debtors s ! i)) pays + snd (debtors s ! i)) \<le> D - pushed pays + r * q"
    if "i < length (debtors s)"
    using excess_bounds(3) [OF d1 that] d2 by (simp add: ed_def)
qed

section \<open>The settlement of numeric balances\<close>

lemma sum_list_mset_cong:
  fixes f :: "'a \<Rightarrow> rat"
  assumes "mset xs = mset ys"
  shows "sum_list (map f xs) = sum_list (map f ys)"
proof -
  have "sum_list (map f xs) = sum_mset (image_mset f (mset xs))"
    by (simp add: sum_mset_sum_list [symmetric])
  also have "\<dots> = sum_mset (image_mset f (mset ys))" by (simp add: assms)
  also have "\<dots> = sum_list (map f ys)"
    by (simp add: sum_mset_sum_list [symmetric])
  finally show ?thesis .
qed

lemma mset_debtors_of_num:
  "mset (debtors_of (num_entries nb)) = mset (filter (\<lambda>e. snd e < - eps) nb)"
proof -
  have "mset (debtors_of (num_entries nb))
      = mset (map (\<lambda>(k, amt). (k, num_of amt))
          (filter (\<lambda>(_, amt). js_less amt (- eps)) (num_entries nb)))"
    by (simp add: debtors_of_def mset_entries)
  also have "map (\<lambda>(k, amt). (k, num_of amt))
          (filter (\<lambda>(_, amt). js_less amt (- eps)) (num_entries nb))
      = filter (\<lambda>e. snd e < - eps) nb"
    by (induction nb) (auto simp add: num_entries_def js_less_def num_of_def)
  finally show ?thesis .
qed

lemma mset_creditors_of_num:
  "mset (creditors_of (num_entries nb)) = mset (filter (\<lambda>e. eps < snd e) nb)"
proof -
  have "mset (creditors_of (num_entries nb))
      = mset (map (\<lambda>(k, amt). (k, num_of amt))
          (filter (\<lambda>(_, amt). js_greater amt eps) (num_entries nb)))"
    by (simp add: creditors_of_def mset_entries)
  also have "map (\<lambda>(k, amt). (k, num_of amt))
          (filter (\<lambda>(_, amt). js_greater amt eps) (num_entries nb))
      = filter (\<lambda>e. eps < snd e) nb"
    by (induction nb) (auto simp add: num_entries_def js_greater_def num_of_def)
  finally show ?thesis .
qed

lemma distinct_keys_mset:
  assumes "mset xs = mset (filter P ys)" and "distinct (map fst ys)"
  shows "distinct (map fst xs)"
proof -
  from assms(1) have "mset (map fst xs) = mset (map fst (filter P ys))" by simp
  moreover from assms(2) have "distinct (map fst (filter P ys))" by (rule distinct_map_filter)
  ultimately show ?thesis by (metis mset_eq_imp_distinct_iff)
qed

lemma init_state_num:
  fixes nb :: "(string \<times> rat) list"
  assumes dist: "distinct (map fst nb)" and M: "\<forall>e \<in> set nb. \<bar>snd e\<bar> \<le> pow2 k"
  shows "bounded (pow2 k) (init_state (num_entries nb))"
    and "distinct (map fst (debtors (init_state (num_entries nb))))"
    and "distinct (map fst (creditors (init_state (num_entries nb))))"
    and "set (debtors (init_state (num_entries nb))) = {e \<in> set nb. snd e < - eps}"
    and "set (creditors (init_state (num_entries nb))) = {e \<in> set nb. eps < snd e}"
proof -
  have d: "set (debtors_of (num_entries nb)) = {e \<in> set nb. snd e < - eps}"
    using mset_eq_setD [OF mset_debtors_of_num [of nb]] by simp
  have c: "set (creditors_of (num_entries nb)) = {e \<in> set nb. eps < snd e}"
    using mset_eq_setD [OF mset_creditors_of_num [of nb]] by simp
  from d c show "set (debtors (init_state (num_entries nb))) = {e \<in> set nb. snd e < - eps}"
    and "set (creditors (init_state (num_entries nb))) = {e \<in> set nb. eps < snd e}"
    by (simp_all add: init_state_def)
  have "- pow2 k \<le> snd e \<and> snd e \<le> 0" if "e \<in> set (debtors_of (num_entries nb))" for e
  proof -
    from that d have e: "e \<in> set nb" "snd e < - eps" by simp_all
    from M e(1) have "\<bar>snd e\<bar> \<le> pow2 k" by blast
    with e(2) eps_pos show ?thesis by linarith
  qed
  moreover
  have "0 \<le> snd e \<and> snd e \<le> pow2 k" if "e \<in> set (creditors_of (num_entries nb))" for e
  proof -
    from that c have e: "e \<in> set nb" "eps < snd e" by simp_all
    from M e(1) have "\<bar>snd e\<bar> \<le> pow2 k" by blast
    with e(2) eps_pos show ?thesis by linarith
  qed
  ultimately show "bounded (pow2 k) (init_state (num_entries nb))"
    by (simp add: bounded_def init_state_def list_all_iff)
  show "distinct (map fst (debtors (init_state (num_entries nb))))"
    unfolding init_state_def using mset_debtors_of_num dist
    by (simp add: distinct_keys_mset)
  show "distinct (map fst (creditors (init_state (num_entries nb))))"
    unfolding init_state_def using mset_creditors_of_num dist
    by (simp add: distinct_keys_mset)
qed

text \<open>Per entry: the part of a balance that the filters of lines 822-823 drop is at most eps.\<close>

lemma filtered_parts:
  fixes bal :: "(string \<times> rat) list"
  shows "sum_list (map snd (filter (\<lambda>e. eps < snd e) bal))
           \<le> sum_list (map (\<lambda>e. max 0 (snd e)) bal)"
    and "sum_list (map (\<lambda>e. max 0 (snd e)) bal)
           + eps * of_nat (length (filter (\<lambda>e. snd e < - eps) bal)
                           + length (filter (\<lambda>e. eps < snd e) bal))
         \<le> sum_list (map snd (filter (\<lambda>e. eps < snd e) bal)) + eps * of_nat (length bal)"
    and "sum_list (map (\<lambda>e. max 0 (- snd e)) bal)
           + eps * of_nat (length (filter (\<lambda>e. snd e < - eps) bal)
                           + length (filter (\<lambda>e. eps < snd e) bal))
         \<le> sum_list (map (\<lambda>e. - snd e) (filter (\<lambda>e. snd e < - eps) bal))
             + eps * of_nat (length bal)"
    and "sum_list (map (\<lambda>e. max 0 (snd e)) bal) - sum_list (map (\<lambda>e. max 0 (- snd e)) bal)
         = sum_list (map snd bal)"
    and "sum_list (map (\<lambda>e. - snd e) (filter (\<lambda>e. snd e < - eps) bal))
           \<le> sum_list (map (\<lambda>e. max 0 (- snd e)) bal)"
    and "length (filter (\<lambda>e. snd e < - eps) bal) + length (filter (\<lambda>e. eps < snd e) bal)
           \<le> length bal"
  using eps_pos
  by (induction bal) (auto simp add: algebra_simps max_def)

lemma paid_from_none: "\<forall>p \<in> set pays. payFrom p \<noteq> k \<Longrightarrow> paid_from k pays = 0"
  by (induction pays) (simp_all add: paid_from_def)

lemma paid_to_none: "\<forall>p \<in> set pays. payTo p \<noteq> k \<Longrightarrow> paid_to k pays = 0"
  by (induction pays) (simp_all add: paid_to_def)

text \<open>
  The payments against the balances: \<open>P\<close> is the sum of the positive balances, \<open>T\<close> the
  sum of all balances, \<open>n\<close> their number and \<open>r\<close> the rounding error of one pass.
\<close>

lemma settled_near:
  fixes nb :: "(string \<times> rat) list"
  assumes dist: "distinct (map fst nb)" and M: "\<forall>e \<in> set nb. \<bar>snd e\<bar> \<le> pow2 k"
    and k: "- 1074 \<le> k"
  defines "pays \<equiv> payments (loop (init_state (num_entries nb)))"
    and "n \<equiv> of_nat (length nb)"
    and "T \<equiv> sum_list (map snd nb)"
    and "P \<equiv> sum_list (map (\<lambda>e. max 0 (snd e)) nb)"
    and "r \<equiv> roundoff (pow2 k)"
  shows "pushed pays \<le> P + r * n"
    and "P - pushed pays \<le> eps * n + max 0 T + r * n"
    and "e \<in> set nb \<Longrightarrow>
           \<bar>snd e + paid_from (fst e) pays - paid_to (fst e) pays\<bar>
             \<le> eps * n + \<bar>T\<bar> + 2 * (r * n)"
proof -
  define s where "s = init_state (num_entries nb)"
  define D where "D = sum_list (map (\<lambda>e. - snd e) (debtors s))"
  define C where "C = sum_list (map snd (creditors s))"
  define q :: rat where "q = of_nat (length (debtors s) + length (creditors s))"
  define N where "N = sum_list (map (\<lambda>e. max 0 (- snd e)) nb)"
  note i = init_state_num [OF dist M, folded s_def]
  have init: "payments s = []" "dIdx s = 0" "cIdx s = 0"
    by (simp_all add: s_def init_state_def)
  note t = loop_totals [OF init i(1) k i(2,3), folded pays_def [unfolded s_def [symmetric]],
      folded D_def C_def q_def r_def]
  have md: "mset (debtors s) = mset (filter (\<lambda>e. snd e < - eps) nb)"
    by (simp add: s_def init_state_def mset_debtors_of_num)
  have mc: "mset (creditors s) = mset (filter (\<lambda>e. eps < snd e) nb)"
    by (simp add: s_def init_state_def mset_creditors_of_num)
  have D: "D = sum_list (map (\<lambda>e. - snd e) (filter (\<lambda>e. snd e < - eps) nb))"
    unfolding D_def by (rule sum_list_mset_cong [OF md])
  have C: "C = sum_list (map snd (filter (\<lambda>e. eps < snd e) nb))"
    unfolding C_def by (rule sum_list_mset_cong [OF mc])
  have q: "q = of_nat (length (filter (\<lambda>e. snd e < - eps) nb)
                       + length (filter (\<lambda>e. eps < snd e) nb))"
    unfolding q_def using mset_eq_length [OF md] mset_eq_length [OF mc] by simp
  have r0: "0 \<le> r" unfolding r_def using pow2_pos [of k] by (intro roundoff_nonneg) simp
  have q0: "0 \<le> q" by (simp add: q_def)
  have qn: "q \<le> n" unfolding q n_def using filtered_parts(6) [of nb]
    by (simp only: of_nat_le_iff)
  have rq: "0 \<le> r * q" "r * q \<le> r * n"
    using r0 q0 qn by (simp_all add: mult_left_mono)
  have n0: "0 \<le> eps * n" using eps_pos by (simp add: n_def)
  have parts: "C \<le> P" "P + eps * q \<le> C + eps * n" "N + eps * q \<le> D + eps * n"
    "P - N = T" "D \<le> N"
    using filtered_parts(1-5) [of nb] unfolding C D q P_def N_def n_def T_def by simp_all
  have lower: "min D C - (eps * q + r * q) \<le> pushed pays"
    using t(1) by (simp add: algebra_simps)
  from t(2) parts(1) rq show 1: "pushed pays \<le> P + r * n" by linarith
  from lower parts rq show 2: "P - pushed pays \<le> eps * n + max 0 T + r * n"
    by linarith
  show "\<bar>snd e + paid_from (fst e) pays - paid_to (fst e) pays\<bar> \<le> eps * n + \<bar>T\<bar> + 2 * (r * n)"
    if e: "e \<in> set nb"
  proof -
    have keyd: "\<forall>p \<in> set pays. payFrom p \<noteq> fst e" if "\<not> snd e < - eps"
    proof
      fix p assume "p \<in> set pays"
      then have "payFrom p \<in> fst ` set (debtors s)"
        unfolding pays_def s_def [symmetric] by (rule loop_payments_keys(1) [OF init(1)])
      then obtain e' where e': "e' \<in> set nb" "snd e' < - eps" "payFrom p = fst e'"
        unfolding i(4) by auto
      show "payFrom p \<noteq> fst e"
      proof
        assume "payFrom p = fst e"
        with e' have "fst e' = fst e" by simp
        with dist e e'(1) have "e' = e" by (metis eq_key_imp_eq_value prod.collapse)
        with e'(2) that show False by simp
      qed
    qed
    have keyc: "\<forall>p \<in> set pays. payTo p \<noteq> fst e" if "\<not> eps < snd e"
    proof
      fix p assume "p \<in> set pays"
      then have "payTo p \<in> fst ` set (creditors s)"
        unfolding pays_def s_def [symmetric] by (rule loop_payments_keys(2) [OF init(1)])
      then obtain e' where e': "e' \<in> set nb" "eps < snd e'" "payTo p = fst e'"
        unfolding i(5) by auto
      show "payTo p \<noteq> fst e"
      proof
        assume "payTo p = fst e"
        with e' have "fst e' = fst e" by simp
        with dist e e'(1) have "e' = e" by (metis eq_key_imp_eq_value prod.collapse)
        with e'(2) that show False by simp
      qed
    qed
    from e have "1 \<le> length nb" by (cases nb) simp_all
    then have "(1 :: rat) \<le> n" unfolding n_def by (metis of_nat_1 of_nat_le_iff)
    then have en: "eps \<le> eps * n" using eps_pos by simp
    consider (cred) "eps < snd e" | (debt) "snd e < - eps" | (small) "\<bar>snd e\<bar> \<le> eps"
      by linarith
    then show ?thesis
    proof cases
      case cred
      with e i(5) have "e \<in> set (creditors s)" by simp
      then obtain j where j: "j < length (creditors s)" "creditors s ! j = e"
        by (auto simp add: in_set_conv_nth)
      from cred eps_pos have "\<not> snd e < - eps" by linarith
      then have pf: "paid_from (fst e) pays = 0" by (intro paid_from_none keyd)
      from t(3,4) [OF j(1)] j(2)
      have "paid_to (fst e) pays - snd e \<le> r * q"
        "snd e - paid_to (fst e) pays \<le> C - pushed pays + r * q" by simp_all
      with pf parts(1) 2 rq n0 show ?thesis by linarith
    next
      case debt
      with e i(4) have "e \<in> set (debtors s)" by simp
      then obtain j where j: "j < length (debtors s)" "debtors s ! j = e"
        by (auto simp add: in_set_conv_nth)
      from debt eps_pos have "\<not> eps < snd e" by linarith
      then have pt: "paid_to (fst e) pays = 0" by (intro paid_to_none keyc)
      from t(5,6) [OF j(1)] j(2)
      have "paid_from (fst e) pays + snd e \<le> r * q"
        "- (paid_from (fst e) pays + snd e) \<le> D - pushed pays + r * q" by simp_all
      with pt parts(4,5) 2 rq n0 show ?thesis by linarith
    next
      case small
      with eps_pos have "\<not> snd e < - eps" "\<not> eps < snd e" by linarith+
      then have "paid_from (fst e) pays = 0" "paid_to (fst e) pays = 0"
        by (simp_all add: paid_from_none paid_to_none keyd keyc)
      with small en rq r0 show ?thesis by linarith
    qed
  qed
qed

section \<open>The settlement of a trip\<close>

lemma put_fresh:
  "k \<noteq> ''__proto__'' \<Longrightarrow> k \<notin> fst ` set ob \<Longrightarrow> put k v ob = ob @ [(k, v)]"
  by (simp add: put_def update_fresh)

lemma balances_fold_fresh:
  "distinct (map name ps) \<Longrightarrow> name ` set ps \<inter> fst ` set bal0 = {} \<Longrightarrow>
   ''__proto__'' \<notin> name ` set ps \<Longrightarrow>
   foldl (\<lambda>bal p. put (name p) (g (name p)) bal) bal0 ps
     = bal0 @ map (\<lambda>p. (name p, g (name p))) ps"
proof (induction ps arbitrary: bal0)
  case Nil
  then show ?case by simp
next
  case (Cons p ps)
  from Cons.prems have fresh: "name p \<notin> fst ` set bal0" "name p \<noteq> ''__proto__''" by auto
  from Cons.prems have "name ` set ps \<inter> fst ` set (bal0 @ [(name p, g (name p))]) = {}"
    by auto
  moreover from Cons.prems have "distinct (map name ps)" "''__proto__'' \<notin> name ` set ps"
    by simp_all
  ultimately show ?case
    using Cons.IH [of "bal0 @ [(name p, g (name p))]"]
    by (simp add: put_fresh [OF fresh(2,1)])
qed

lemma balances_num:
  assumes "distinct (map name ps)" and "''__proto__'' \<notin> name ` set ps"
  shows "balances (totalTripCost es) (expensesByParticipant es ps) ps
     = num_entries (map (\<lambda>p. (name p, balance_num es ps (name p))) ps)"
proof -
  have "balances (totalTripCost es) (expensesByParticipant es ps) ps
      = map (\<lambda>p. (name p,
          balance (totalTripCost es) (expensesByParticipant es ps) ps (name p))) ps"
    unfolding balances_def using assms by (simp add: balances_fold_fresh)
  also have "\<dots> = map (\<lambda>p. (name p, Num (balance_num es ps (name p)))) ps"
  proof (rule map_cong [OF refl])
    fix p assume p: "p \<in> set ps"
    then have k1: "name p \<in> name ` set ps" by simp
    with assms(2) have "name p \<noteq> ''__proto__''" by metis
    with k1 show "(name p, balance (totalTripCost es) (expensesByParticipant es ps) ps (name p))
        = (name p, Num (balance_num es ps (name p)))"
      by (simp add: balance_Num)
  qed
  finally show ?thesis by (simp add: num_entries_def o_def)
qed

lemma roundoff_values:
  "roundoff (5 * 100000000) \<le> 1 / 18000000"
  "roundoff (pow2 30) \<le> 1 / 8000000"
  "6 * 100000000 \<le> pow2 30"
proof -
  have e: "eta \<le> u53"
    by (simp add: eta_def u53_def power_increasing [of 53 1075 "2 :: rat"] frac_le)
  then show "roundoff (5 * 100000000) \<le> 1 / 18000000"
    by (simp add: roundoff_def u53_def)
  have p: "pow2 30 = 1073741824" by (simp add: pow2_def)
  from e show "roundoff (pow2 30) \<le> 1 / 8000000"
    unfolding p by (simp add: roundoff_def u53_def)
  show "6 * 100000000 \<le> pow2 30" unfolding p by simp
qed

text \<open>
  For a trip of at most 10000 expenses with non-negative amounts of sum at most \<open>10\<^sup>8\<close>
  and at most 10000 participants with distinct names other than \<^verbatim>\<open>__proto__\<close>: the
  balances are numbers of size at most \<open>2\<^sup>3\<^sup>0\<close>, their sum is at most the rounding errors
  made in computing them, and it is within them of zero when every payer is a participant.
\<close>

lemma trip_balances:
  fixes es :: "Expense list"
  assumes ps: "ps \<noteq> []" and dist: "distinct (map name ps)"
    and nn: "\<forall>e \<in> set es. 0 \<le> amount e"
    and B: "sum_list (map amount es) \<le> 100000000"
    and m: "length es \<le> 10000" and n: "length ps \<le> 10000"
  shows "\<bar>balance_num es ps k\<bar> \<le> pow2 30"
    and "sum_list (map (\<lambda>p. balance_num es ps (name p)) ps) \<le> 1 / 450"
    and "paidBy ` set es \<subseteq> name ` set ps \<Longrightarrow>
           \<bar>sum_list (map (\<lambda>p. balance_num es ps (name p)) ps)\<bar> \<le> 1 / 450"
proof -
  define r where "r = roundoff (5 * 100000000)"
  have r: "0 \<le> r" "r \<le> 1 / 18000000"
    using roundoff_values(1) by (simp_all add: r_def roundoff_nonneg)
  have abs: "map (\<lambda>e. \<bar>amount e\<bar>) es = map amount es"
    using nn by (intro map_cong) simp_all
  have Ba: "sum_list (map (\<lambda>e. \<bar>amount e\<bar>) es) \<le> 100000000"
    unfolding abs by (rule B)
  have "of_nat (length es) * r \<le> 10000 * r"
    using m r(1) by (intro mult_right_mono) simp_all
  with r have mr: "of_nat (length es) * r \<le> 1 / 1800" by linarith
  have "of_nat (length ps) * r \<le> 10000 * r"
    using n r(1) by (intro mult_right_mono) simp_all
  with r have nr: "of_nat (length ps) * r \<le> 1 / 1800" by linarith
  have R1: "roundoff (5 * 100000000) \<le> 100000000"
    using r by (simp add: r_def)
  have R2: "of_nat (length es) * roundoff (5 * 100000000) \<le> 100000000"
    using mr by (simp add: r_def)
  from balance_num_error(3) [OF ps Ba R1 R2, of k] roundoff_values(3)
  show "\<bar>balance_num es ps k\<bar> \<le> pow2 30" by linarith
  have near: "\<bar>sum_list (map (\<lambda>p. balance_num es ps (name p)) ps)
          - (sum_list (map (\<lambda>p. sum_list (paid_by es (name p))) ps) - sum_list (map amount es))\<bar>
       \<le> 2 * (of_nat (length es) * r) + 2 * (of_nat (length ps) * r)"
    using balance_sum_near [OF ps dist Ba R1 R2] by (simp add: r_def algebra_simps)
  from near paid_by_names_sum_le [OF dist nn] mr nr
  show "sum_list (map (\<lambda>p. balance_num es ps (name p)) ps) \<le> 1 / 450" by linarith
  assume "paidBy ` set es \<subseteq> name ` set ps"
  from near paid_by_names_sum [OF dist this] mr nr
  show "\<bar>sum_list (map (\<lambda>p. balance_num es ps (name p)) ps)\<bar> \<le> 1 / 450" by linarith
qed

section \<open>The claims\<close>

text \<open>
  C1 (conservation), as stated: whenever there are at least two participants and the
  total is not zero, the payments sum to the sum of the positive balances within
  tolerance, and applying the payments brings every balance to zero. Five trips for which
  this fails. Alice pays 0.01 among Alice, Bob and Carol: Bob and Carol owe less than the
  tolerance, so there is no payment and Alice keeps a balance above \<open>0.005\<close>. A pays
  \<open>10\<^sup>1\<^sup>7\<close> among A, B and C: in doubles the balances are 66666666666666672 and
  twice -33333333333333332, and the two payments fall short of the positive balance by 8.
  Eva, who is no participant, pays 100 and the participants are Ana and Luis: both have
  balance \<open>-50\<close> and there is no payment. Two participants named Ana, one of whom pays
  100: the one balance is 50, there is no debtor and no payment. Ana pays 90 among Ana,
  Luis and a participant named \<^verbatim>\<open>__proto__\<close>, who gets no balance: Luis pays 30 and
  Ana's balance is 60.
\<close>

theorem C1_conservation_counterexample:
  "(let es = [\<lparr>amount = 5764607523034235 / 576460752303423488, category = COMIDA,
               paidBy = ''Alice''\<rparr>];
        ps = [\<lparr>name = ''Alice''\<rparr>, \<lparr>name = ''Bob''\<rparr>, \<lparr>name = ''Carol''\<rparr>]
    in 2 \<le> length ps \<and> totalTripCost es \<noteq> 0
       \<and> map (\<lambda>p. map_of (balances (totalTripCost es) (expensesByParticipant es ps) ps)
                 (name p)) ps
           = map (\<lambda>b. Some (Num b))
               [3843071682022823 / 576460752303423488,
                - 7686143364045647 / 2305843009213693952,
                - 7686143364045647 / 2305843009213693952]
       \<and> settlement es ps = []
       \<and> eps < 3843071682022823 / 576460752303423488)
   \<and> (let es = [\<lparr>amount = 100000000000000000, category = COMIDA, paidBy = ''A''\<rparr>];
          ps = [\<lparr>name = ''A''\<rparr>, \<lparr>name = ''B''\<rparr>, \<lparr>name = ''C''\<rparr>]
      in 2 \<le> length ps \<and> totalTripCost es \<noteq> 0
         \<and> map (\<lambda>p. map_of (balances (totalTripCost es) (expensesByParticipant es ps) ps)
                   (name p)) ps
             = map (\<lambda>b. Some (Num b))
                 [66666666666666672, - 33333333333333332, - 33333333333333332]
         \<and> settlement es ps
             = [\<lparr>payFrom = ''B'', payTo = ''A'', payAmount = 33333333333333332\<rparr>,
                \<lparr>payFrom = ''C'', payTo = ''A'', payAmount = 33333333333333332\<rparr>]
         \<and> eps * of_nat (length ps + 1)
             < \<bar>sum_list (map payAmount (settlement es ps))
                - sum_list (map (\<lambda>b. max 0 b)
                    [66666666666666672, - 33333333333333332, - 33333333333333332])\<bar>)
   \<and> (let es = [\<lparr>amount = 100, category = COMIDA, paidBy = ''Eva''\<rparr>];
          ps = [\<lparr>name = ''Ana''\<rparr>, \<lparr>name = ''Luis''\<rparr>]
      in 2 \<le> length ps \<and> totalTripCost es \<noteq> 0
         \<and> map (\<lambda>p. map_of (balances (totalTripCost es) (expensesByParticipant es ps) ps)
                   (name p)) ps
             = map (\<lambda>b. Some (Num b)) [- 50, - 50]
         \<and> settlement es ps = [])
   \<and> (let es = [\<lparr>amount = 100, category = COMIDA, paidBy = ''Ana''\<rparr>];
          ps = [\<lparr>name = ''Ana''\<rparr>, \<lparr>name = ''Ana''\<rparr>]
      in 2 \<le> length ps \<and> totalTripCost es \<noteq> 0
         \<and> map (\<lambda>p. map_of (balances (totalTripCost es) (expensesByParticipant es ps) ps)
                   (name p)) ps
             = map (\<lambda>b. Some (Num b)) [50, 50]
         \<and> settlement es ps = []
         \<and> eps * of_nat (length ps + 1)
             < \<bar>sum_list (map payAmount (settlement es ps))
                - sum_list (map (\<lambda>b. max 0 b) [50, 50])\<bar>)
   \<and> (let es = [\<lparr>amount = 90, category = COMIDA, paidBy = ''Ana''\<rparr>];
          ps = [\<lparr>name = ''Ana''\<rparr>, \<lparr>name = ''Luis''\<rparr>, \<lparr>name = ''__proto__''\<rparr>]
      in 2 \<le> length ps \<and> totalTripCost es \<noteq> 0
         \<and> map (\<lambda>p. map_of (balances (totalTripCost es) (expensesByParticipant es ps) ps)
                   (name p)) ps
             = [Some (Num 60), Some (Num (- 30)), None]
         \<and> settlement es ps = [\<lparr>payFrom = ''Luis'', payTo = ''Ana'', payAmount = 30\<rparr>]
         \<and> eps * of_nat (length ps + 1)
             < \<bar>sum_list (map payAmount (settlement es ps))
                - sum_list (map (\<lambda>b. max 0 b) [60, - 30])\<bar>)"
  by code_simp

text \<open>
  C1, amended: for a trip with at least two participants and a total that is not zero,
  whose participant names are distinct and none \<^verbatim>\<open>__proto__\<close>, with at most 10000
  participants and at most 10000 expenses, of non-negative amounts that sum to at most
  \<open>10\<^sup>8\<close>: every participant has a numeric balance, and the payments sum to the sum of
  the positive balances within \<open>0.005\<close> times the number of participants plus one, in
  doubles. If moreover every payer is a participant, then applying the payments (adding to
  each balance what the participant pays and subtracting what the participant receives)
  brings every balance within that same distance of zero.
\<close>

theorem C1_conservation:
  fixes es :: "Expense list"
  assumes "2 \<le> length ps" and "totalTripCost es \<noteq> 0"
    and "distinct (map name ps)" and "''__proto__'' \<notin> name ` set ps"
    and "\<forall>e \<in> set es. 0 \<le> amount e"
    and "sum_list (map amount es) \<le> 100000000"
    and "length es \<le> 10000" and "length ps \<le> 10000"
  shows "\<exists>bs. map (\<lambda>p. map_of (balances (totalTripCost es)
                        (expensesByParticipant es ps) ps) (name p)) ps
               = map (\<lambda>b. Some (Num b)) bs
           \<and> \<bar>sum_list (map payAmount (settlement es ps)) - sum_list (map (\<lambda>b. max 0 b) bs)\<bar>
               \<le> eps * of_nat (length ps + 1)
           \<and> (paidBy ` set es \<subseteq> name ` set ps \<longrightarrow>
               (\<forall>i < length ps.
                  \<bar>bs ! i
                    + sum_list (map payAmount
                        (filter (\<lambda>q. payFrom q = name (ps ! i)) (settlement es ps)))
                    - sum_list (map payAmount
                        (filter (\<lambda>q. payTo q = name (ps ! i)) (settlement es ps)))\<bar>
                  \<le> eps * of_nat (length ps + 1)))"
proof -
  define nb where "nb = map (\<lambda>p. (name p, balance_num es ps (name p))) ps"
  define bs where "bs = map (\<lambda>p. balance_num es ps (name p)) ps"
  define pays where "pays = settlement es ps"
  define n :: rat where "n = of_nat (length ps)"
  define r where "r = roundoff (pow2 30)"
  define T where "T = sum_list bs"
  define P where "P = sum_list (map (\<lambda>b. max 0 b) bs)"
  from assms(1) have ps: "ps \<noteq> []" by auto
  note tb = trip_balances [OF ps assms(3,5,6,7,8)]
  have d: "distinct (map fst nb)" using assms(3) by (simp add: nb_def o_def)
  have M: "\<forall>e \<in> set nb. \<bar>snd e\<bar> \<le> pow2 30" using tb(1) by (auto simp add: nb_def)
  have pays: "pays = payments (loop (init_state (num_entries nb)))"
    using assms(1,2)
    by (simp add: pays_def settlement_def settledPayments_def balances_num [OF assms(3,4)] nb_def)
  have len: "of_nat (length nb) = n" by (simp add: nb_def n_def)
  have T: "sum_list (map snd nb) = T" by (simp add: nb_def T_def bs_def o_def)
  have P: "sum_list (map (\<lambda>e. max 0 (snd e)) nb) = P"
    by (simp add: nb_def P_def bs_def o_def)
  have k: "- 1074 \<le> (30 :: int)" by simp
  note sn = settled_near [OF d M k, unfolded pays [symmetric] len T P, folded r_def]
  have r0: "0 \<le> r" unfolding r_def using pow2_pos [of 30] by (intro roundoff_nonneg) simp
  have "r * n \<le> r * 10000"
    using assms(8) r0 by (intro mult_left_mono) (simp_all add: n_def)
  moreover have "r \<le> 1 / 8000000" using roundoff_values(2) by (simp add: r_def)
  ultimately have rn: "r * n \<le> 1 / 800" "0 \<le> r * n"
    using r0 by (simp_all add: n_def)
  have e1: "eps * of_nat (length ps + 1) = eps * n + eps" by (simp add: n_def algebra_simps)
  have e0: "1 / 450 + 2 * (1 / 800) \<le> eps" by (simp add: eps_def)
  have T1: "T \<le> 1 / 450" using tb(2) by (simp add: T_def bs_def)
  have en: "0 \<le> eps * n" using eps_pos by (simp add: n_def)
  have a: "\<bar>pushed pays - P\<bar> \<le> eps * n + eps"
    using sn(1) sn(2) T1 rn e0 en by linarith
  have b: "\<bar>bs ! i + paid_from (name (ps ! i)) pays - paid_to (name (ps ! i)) pays\<bar>
      \<le> eps * n + eps"
    if sub: "paidBy ` set es \<subseteq> name ` set ps" and i: "i < length ps" for i
  proof -
    from tb(3) [OF sub] have T2: "\<bar>T\<bar> \<le> 1 / 450" by (simp add: T_def bs_def)
    from i have "nb ! i \<in> set nb" by (simp add: nb_def)
    from sn(3) [OF this] i
    have "\<bar>bs ! i + paid_from (name (ps ! i)) pays - paid_to (name (ps ! i)) pays\<bar>
        \<le> eps * n + \<bar>T\<bar> + 2 * (r * n)"
      by (simp add: nb_def bs_def)
    with T2 rn e0 en show ?thesis by linarith
  qed
  have "map (\<lambda>p. map_of (balances (totalTripCost es)
                        (expensesByParticipant es ps) ps) (name p)) ps
      = map (\<lambda>b. Some (Num b)) bs"
    unfolding bs_def using assms(4) by (rule balances_map_of)
  moreover have "\<bar>sum_list (map payAmount (settlement es ps)) - sum_list (map (\<lambda>b. max 0 b) bs)\<bar>
      \<le> eps * of_nat (length ps + 1)"
    using a unfolding e1 by (simp add: pushed_def pays_def P_def)
  moreover have "paidBy ` set es \<subseteq> name ` set ps \<longrightarrow>
      (\<forall>i < length ps.
         \<bar>bs ! i
           + sum_list (map payAmount
               (filter (\<lambda>q. payFrom q = name (ps ! i)) (settlement es ps)))
           - sum_list (map payAmount
               (filter (\<lambda>q. payTo q = name (ps ! i)) (settlement es ps)))\<bar>
         \<le> eps * of_nat (length ps + 1))"
    using b unfolding e1 by (simp add: paid_from_def paid_to_def pays_def)
  ultimately show ?thesis by blast
qed

theorem C1_conservation_witness:
  "2 \<le> length [\<lparr>name = ''Ana''\<rparr>, \<lparr>name = ''Luis''\<rparr>, \<lparr>name = ''Eva''\<rparr>]
   \<and> totalTripCost [\<lparr>amount = 90, category = COMIDA, paidBy = ''Ana''\<rparr>] \<noteq> 0
   \<and> distinct (map name [\<lparr>name = ''Ana''\<rparr>, \<lparr>name = ''Luis''\<rparr>, \<lparr>name = ''Eva''\<rparr>])
   \<and> ''__proto__'' \<notin> name ` set [\<lparr>name = ''Ana''\<rparr>, \<lparr>name = ''Luis''\<rparr>, \<lparr>name = ''Eva''\<rparr>]
   \<and> (\<forall>e \<in> set [\<lparr>amount = 90, category = COMIDA, paidBy = ''Ana''\<rparr>]. 0 \<le> amount e)
   \<and> sum_list (map amount [\<lparr>amount = 90, category = COMIDA, paidBy = ''Ana''\<rparr>]) \<le> 100000000
   \<and> length [\<lparr>amount = 90, category = COMIDA, paidBy = ''Ana''\<rparr>] \<le> 10000
   \<and> length [\<lparr>name = ''Ana''\<rparr>, \<lparr>name = ''Luis''\<rparr>, \<lparr>name = ''Eva''\<rparr>] \<le> 10000
   \<and> paidBy ` set [\<lparr>amount = 90, category = COMIDA, paidBy = ''Ana''\<rparr>]
       \<subseteq> name ` set [\<lparr>name = ''Ana''\<rparr>, \<lparr>name = ''Luis''\<rparr>, \<lparr>name = ''Eva''\<rparr>]
   \<and> settlement [\<lparr>amount = 90, category = COMIDA, paidBy = ''Ana''\<rparr>]
        [\<lparr>name = ''Ana''\<rparr>, \<lparr>name = ''Luis''\<rparr>, \<lparr>name = ''Eva''\<rparr>]
       = [\<lparr>payFrom = ''Luis'', payTo = ''Ana'', payAmount = 30\<rparr>,
          \<lparr>payFrom = ''Eva'', payTo = ''Ana'', payAmount = 30\<rparr>]
   \<and> (\<exists>bs. map (\<lambda>p. map_of (balances
                 (totalTripCost [\<lparr>amount = 90, category = COMIDA, paidBy = ''Ana''\<rparr>])
                 (expensesByParticipant [\<lparr>amount = 90, category = COMIDA, paidBy = ''Ana''\<rparr>]
                    [\<lparr>name = ''Ana''\<rparr>, \<lparr>name = ''Luis''\<rparr>, \<lparr>name = ''Eva''\<rparr>])
                 [\<lparr>name = ''Ana''\<rparr>, \<lparr>name = ''Luis''\<rparr>, \<lparr>name = ''Eva''\<rparr>]) (name p))
               [\<lparr>name = ''Ana''\<rparr>, \<lparr>name = ''Luis''\<rparr>, \<lparr>name = ''Eva''\<rparr>]
             = map (\<lambda>b. Some (Num b)) bs
         \<and> \<bar>sum_list (map payAmount
               (settlement [\<lparr>amount = 90, category = COMIDA, paidBy = ''Ana''\<rparr>]
                  [\<lparr>name = ''Ana''\<rparr>, \<lparr>name = ''Luis''\<rparr>, \<lparr>name = ''Eva''\<rparr>]))
             - sum_list (map (\<lambda>b. max 0 b) bs)\<bar>
             \<le> eps * of_nat (length [\<lparr>name = ''Ana''\<rparr>, \<lparr>name = ''Luis''\<rparr>, \<lparr>name = ''Eva''\<rparr>] + 1)
         \<and> (\<forall>i < length [\<lparr>name = ''Ana''\<rparr>, \<lparr>name = ''Luis''\<rparr>, \<lparr>name = ''Eva''\<rparr>].
               \<bar>bs ! i
                 + sum_list (map payAmount
                     (filter (\<lambda>q. payFrom q
                          = name ([\<lparr>name = ''Ana''\<rparr>, \<lparr>name = ''Luis''\<rparr>, \<lparr>name = ''Eva''\<rparr>] ! i))
                        (settlement [\<lparr>amount = 90, category = COMIDA, paidBy = ''Ana''\<rparr>]
                           [\<lparr>name = ''Ana''\<rparr>, \<lparr>name = ''Luis''\<rparr>, \<lparr>name = ''Eva''\<rparr>])))
                 - sum_list (map payAmount
                     (filter (\<lambda>q. payTo q
                          = name ([\<lparr>name = ''Ana''\<rparr>, \<lparr>name = ''Luis''\<rparr>, \<lparr>name = ''Eva''\<rparr>] ! i))
                        (settlement [\<lparr>amount = 90, category = COMIDA, paidBy = ''Ana''\<rparr>]
                           [\<lparr>name = ''Ana''\<rparr>, \<lparr>name = ''Luis''\<rparr>, \<lparr>name = ''Eva''\<rparr>])))\<bar>
               \<le> eps * of_nat (length [\<lparr>name = ''Ana''\<rparr>, \<lparr>name = ''Luis''\<rparr>, \<lparr>name = ''Eva''\<rparr>] + 1)))"
proof -
  let ?es = "[\<lparr>amount = 90, category = COMIDA, paidBy = ''Ana''\<rparr>]"
  let ?ps = "[\<lparr>name = ''Ana''\<rparr>, \<lparr>name = ''Luis''\<rparr>, \<lparr>name = ''Eva''\<rparr>]"
  have tot: "totalTripCost ?es \<noteq> 0" by code_simp
  have st: "settlement ?es ?ps
       = [\<lparr>payFrom = ''Luis'', payTo = ''Ana'', payAmount = 30\<rparr>,
          \<lparr>payFrom = ''Eva'', payTo = ''Ana'', payAmount = 30\<rparr>]"
    by code_simp
  have hyps: "2 \<le> length ?ps" "distinct (map name ?ps)" "''__proto__'' \<notin> name ` set ?ps"
    "\<forall>e \<in> set ?es. 0 \<le> amount e" "sum_list (map amount ?es) \<le> 100000000"
    "length ?es \<le> 10000" "length ?ps \<le> 10000" "paidBy ` set ?es \<subseteq> name ` set ?ps"
    by simp_all
  from C1_conservation [OF hyps(1) tot hyps(2-7)] hyps(8)
  obtain bs where bs: "map (\<lambda>p. map_of (balances (totalTripCost ?es)
                        (expensesByParticipant ?es ?ps) ?ps) (name p)) ?ps
               = map (\<lambda>b. Some (Num b)) bs"
    "\<bar>sum_list (map payAmount (settlement ?es ?ps)) - sum_list (map (\<lambda>b. max 0 b) bs)\<bar>
               \<le> eps * of_nat (length ?ps + 1)"
    "\<forall>i < length ?ps.
                  \<bar>bs ! i
                    + sum_list (map payAmount
                        (filter (\<lambda>q. payFrom q = name (?ps ! i)) (settlement ?es ?ps)))
                    - sum_list (map payAmount
                        (filter (\<lambda>q. payTo q = name (?ps ! i)) (settlement ?es ?ps)))\<bar>
                  \<le> eps * of_nat (length ?ps + 1)"
    by blast
  from bs have "\<exists>bs. map (\<lambda>p. map_of (balances (totalTripCost ?es)
                        (expensesByParticipant ?es ?ps) ?ps) (name p)) ?ps
               = map (\<lambda>b. Some (Num b)) bs
      \<and> \<bar>sum_list (map payAmount (settlement ?es ?ps)) - sum_list (map (\<lambda>b. max 0 b) bs)\<bar>
               \<le> eps * of_nat (length ?ps + 1)
      \<and> (\<forall>i < length ?ps.
                  \<bar>bs ! i
                    + sum_list (map payAmount
                        (filter (\<lambda>q. payFrom q = name (?ps ! i)) (settlement ?es ?ps)))
                    - sum_list (map payAmount
                        (filter (\<lambda>q. payTo q = name (?ps ! i)) (settlement ?es ?ps)))\<bar>
                  \<le> eps * of_nat (length ?ps + 1))"
    by blast
  with hyps tot st show ?thesis by blast
qed

text \<open>
  C2 (balance-sum invariant), as stated: for every expense list and participant list the
  balances of the participants sum to zero within \<open>0.005\<close> per participant. Four inputs
  for which they do not. An expense paid by somebody who is no participant (Eva pays 100,
  the participants are Ana and Luis): the balances are \<open>-50\<close> and \<open>-50\<close>. A large
  amount (A pays \<open>10\<^sup>1\<^sup>7\<close> among A, B and C): in doubles the balances are
  66666666666666672 and twice -33333333333333332, which sum to 8. Two participants of the
  same name (Ana and Ana, Ana pays 100): both read the one balance 50. A participant named
  \<^verbatim>\<open>__proto__\<close>: the assignment of line 821 stores nothing, the participant has no
  balance.
\<close>

theorem C2_balance_sum_counterexample:
  "map (\<lambda>p. map_of (balances
          (totalTripCost [\<lparr>amount = 100, category = COMIDA, paidBy = ''Eva''\<rparr>])
          (expensesByParticipant [\<lparr>amount = 100, category = COMIDA, paidBy = ''Eva''\<rparr>]
             [\<lparr>name = ''Ana''\<rparr>, \<lparr>name = ''Luis''\<rparr>])
          [\<lparr>name = ''Ana''\<rparr>, \<lparr>name = ''Luis''\<rparr>]) (name p))
      [\<lparr>name = ''Ana''\<rparr>, \<lparr>name = ''Luis''\<rparr>]
     = map (\<lambda>b. Some (Num b)) [- 50, - 50]
   \<and> eps * 2 < \<bar>sum_list [- 50, - 50 :: rat]\<bar>
   \<and> map (\<lambda>p. map_of (balances
          (totalTripCost [\<lparr>amount = 100000000000000000, category = COMIDA, paidBy = ''A''\<rparr>])
          (expensesByParticipant
             [\<lparr>amount = 100000000000000000, category = COMIDA, paidBy = ''A''\<rparr>]
             [\<lparr>name = ''A''\<rparr>, \<lparr>name = ''B''\<rparr>, \<lparr>name = ''C''\<rparr>])
          [\<lparr>name = ''A''\<rparr>, \<lparr>name = ''B''\<rparr>, \<lparr>name = ''C''\<rparr>]) (name p))
      [\<lparr>name = ''A''\<rparr>, \<lparr>name = ''B''\<rparr>, \<lparr>name = ''C''\<rparr>]
     = map (\<lambda>b. Some (Num b))
         [66666666666666672, - 33333333333333332, - 33333333333333332]
   \<and> eps * 3 < \<bar>sum_list [66666666666666672, - 33333333333333332, - 33333333333333332 :: rat]\<bar>
   \<and> map (\<lambda>p. map_of (balances
          (totalTripCost [\<lparr>amount = 100, category = COMIDA, paidBy = ''Ana''\<rparr>])
          (expensesByParticipant [\<lparr>amount = 100, category = COMIDA, paidBy = ''Ana''\<rparr>]
             [\<lparr>name = ''Ana''\<rparr>, \<lparr>name = ''Ana''\<rparr>])
          [\<lparr>name = ''Ana''\<rparr>, \<lparr>name = ''Ana''\<rparr>]) (name p))
      [\<lparr>name = ''Ana''\<rparr>, \<lparr>name = ''Ana''\<rparr>]
     = map (\<lambda>b. Some (Num b)) [50, 50]
   \<and> eps * 2 < \<bar>sum_list [50, 50 :: rat]\<bar>
   \<and> map (\<lambda>p. map_of (balances
          (totalTripCost [\<lparr>amount = 90, category = COMIDA, paidBy = ''Ana''\<rparr>])
          (expensesByParticipant [\<lparr>amount = 90, category = COMIDA, paidBy = ''Ana''\<rparr>]
             [\<lparr>name = ''Ana''\<rparr>, \<lparr>name = ''__proto__''\<rparr>])
          [\<lparr>name = ''Ana''\<rparr>, \<lparr>name = ''__proto__''\<rparr>]) (name p))
      [\<lparr>name = ''Ana''\<rparr>, \<lparr>name = ''__proto__''\<rparr>]
     = [Some (Num 45), None]"
  by code_simp

text \<open>
  C2, amended: when every payer is a participant, the participant names are distinct and
  none is \<^verbatim>\<open>__proto__\<close>, there are at most 10000 expenses and their amounts sum, in
  absolute value, to at most \<open>10\<^sup>8\<close>, then every participant has a numeric balance, and
  the balances computed in doubles sum to zero within \<open>0.005\<close> per participant.
\<close>

theorem C2_balance_sum:
  fixes es :: "Expense list"
  assumes "paidBy ` set es \<subseteq> name ` set ps"
    and "distinct (map name ps)"
    and "''__proto__'' \<notin> name ` set ps"
    and "sum_list (map (\<lambda>e. \<bar>amount e\<bar>) es) \<le> 100000000"
    and "length es \<le> 10000"
  shows "\<exists>bs. map (\<lambda>p. map_of (balances (totalTripCost es)
                        (expensesByParticipant es ps) ps) (name p)) ps
               = map (\<lambda>b. Some (Num b)) bs
           \<and> \<bar>sum_list bs\<bar> \<le> eps * of_nat (length ps)"
proof (intro exI conjI)
  show "map (\<lambda>p. map_of (balances (totalTripCost es)
                        (expensesByParticipant es ps) ps) (name p)) ps
      = map (\<lambda>b. Some (Num b)) (map (\<lambda>p. balance_num es ps (name p)) ps)"
    using assms(3) by (rule balances_map_of)
  show "\<bar>sum_list (map (\<lambda>p. balance_num es ps (name p)) ps)\<bar> \<le> eps * of_nat (length ps)"
  proof (cases "ps = []")
    case True
    then show ?thesis by simp
  next
    case False
    define r where "r = roundoff (5 * 100000000)"
    have r: "0 \<le> r" "r \<le> 1 / 10000000" using roundoff_bounds by (simp_all add: r_def)
    have "of_nat (length es) * r \<le> 10000 * r"
      using assms(5) r(1) by (intro mult_right_mono) simp_all
    with r have mr: "of_nat (length es) * r \<le> 1 / 1000" by linarith
    from False have n: "1 \<le> (of_nat (length ps) :: rat)" by (cases ps) simp_all
    have "\<bar>sum_list (map (\<lambda>p. balance_num es ps (name p)) ps)
          - (sum_list (map (\<lambda>p. sum_list (paid_by es (name p))) ps) - sum_list (map amount es))\<bar>
       \<le> of_nat (2 * length es + 2 * length ps) * roundoff (5 * 100000000)"
      using False assms(2) assms(4) r mr by (intro balance_sum_near) (simp_all add: r_def)
    moreover have "sum_list (map (\<lambda>p. sum_list (paid_by es (name p))) ps)
        = sum_list (map amount es)"
      using assms(2) assms(1) by (rule paid_by_names_sum)
    ultimately have "\<bar>sum_list (map (\<lambda>p. balance_num es ps (name p)) ps)\<bar>
        \<le> 2 * (of_nat (length es) * r) + 2 * (of_nat (length ps) * r)"
      by (simp add: r_def algebra_simps)
    moreover have "of_nat (length ps) * r \<le> of_nat (length ps) * (1 / 10000000)"
      using r(2) by (intro mult_left_mono) simp_all
    moreover have "1 / 500 + 2 * (of_nat (length ps) * (1 / 10000000))
        \<le> eps * of_nat (length ps)"
      using n by (simp add: eps_def)
    ultimately show ?thesis using mr by linarith
  qed
qed

theorem C2_balance_sum_witness:
  "paidBy ` set [\<lparr>amount = 100, category = COMIDA, paidBy = ''Ana''\<rparr>]
     \<subseteq> name ` set [\<lparr>name = ''Ana''\<rparr>, \<lparr>name = ''Luis''\<rparr>]
   \<and> distinct (map name [\<lparr>name = ''Ana''\<rparr>, \<lparr>name = ''Luis''\<rparr>])
   \<and> ''__proto__'' \<notin> name ` set [\<lparr>name = ''Ana''\<rparr>, \<lparr>name = ''Luis''\<rparr>]
   \<and> sum_list (map (\<lambda>e. \<bar>amount e\<bar>) [\<lparr>amount = 100, category = COMIDA, paidBy = ''Ana''\<rparr>])
       \<le> 100000000
   \<and> length [\<lparr>amount = 100, category = COMIDA, paidBy = ''Ana''\<rparr>] \<le> 10000
   \<and> (\<exists>bs. map (\<lambda>p. map_of (balances
                 (totalTripCost [\<lparr>amount = 100, category = COMIDA, paidBy = ''Ana''\<rparr>])
                 (expensesByParticipant [\<lparr>amount = 100, category = COMIDA, paidBy = ''Ana''\<rparr>]
                    [\<lparr>name = ''Ana''\<rparr>, \<lparr>name = ''Luis''\<rparr>])
                 [\<lparr>name = ''Ana''\<rparr>, \<lparr>name = ''Luis''\<rparr>]) (name p))
               [\<lparr>name = ''Ana''\<rparr>, \<lparr>name = ''Luis''\<rparr>]
             = map (\<lambda>b. Some (Num b)) bs
           \<and> \<bar>sum_list bs\<bar>
               \<le> eps * of_nat (length [\<lparr>name = ''Ana''\<rparr>, \<lparr>name = ''Luis''\<rparr>]))"
  using C2_balance_sum [of "[\<lparr>amount = 100, category = COMIDA, paidBy = ''Ana''\<rparr>]"
      "[\<lparr>name = ''Ana''\<rparr>, \<lparr>name = ''Luis''\<rparr>]"]
  by simp

text \<open>
  C3 (guard clause). With fewer than two participants, or a total of zero, the settlement
  is the empty list, whatever the totals per participant are; in particular with a single
  participant.
\<close>

theorem C3_guard:
  "length participants < 2 \<or> tot = 0 \<Longrightarrow> settledPayments tot byParticipant participants = []"
  by (simp add: settledPayments_def)

theorem C3_guard_witness:
  "length [\<lparr>name = ''Ana''\<rparr>] < 2
   \<and> settledPayments 100 [(''Ana'', Num 100)] [\<lparr>name = ''Ana''\<rparr>] = []"
  using C3_guard [of "[\<lparr>name = ''Ana''\<rparr>]" 100 "[(''Ana'', Num 100)]"] by simp



text \<open>
  C5 (termination bound), as stated: the loop runs at most
  \<open>debtors.length + creditors.length - 1\<close> times. Over the integers this fails when both
  arrays are empty (everybody paid the average): the loop runs zero times and the bound
  is \<open>-1\<close>.
\<close>

theorem C5_iteration_bound_counterexample:
  "\<not> int (loop_iterations (init_state (balances 100 [(''Ana'', Num 50), (''Eva'', Num 50)]
              [\<lparr>name = ''Ana''\<rparr>, \<lparr>name = ''Eva''\<rparr>])))
       \<le> int (length (debtors_of (balances 100 [(''Ana'', Num 50), (''Eva'', Num 50)]
              [\<lparr>name = ''Ana''\<rparr>, \<lparr>name = ''Eva''\<rparr>])))
         + int (length (creditors_of (balances 100 [(''Ana'', Num 50), (''Eva'', Num 50)]
              [\<lparr>name = ''Ana''\<rparr>, \<lparr>name = ''Eva''\<rparr>]))) - 1"
  by code_simp

text \<open>
  C5, amended: the loop terminates for every balances object: it is the body run
  \<^const>\<open>loop_iterations\<close> times, after which the loop condition is false, and the number of
  iterations is at most \<open>max(0, debtors.length + creditors.length - 1)\<close>.
\<close>

theorem C5_iteration_bound:
  "loop (init_state bal) = (loop_body ^^ loop_iterations (init_state bal)) (init_state bal)
   \<and> \<not> loop_cond (loop (init_state bal))
   \<and> int (loop_iterations (init_state bal))
       \<le> max 0 (int (length (debtors_of bal)) + int (length (creditors_of bal)) - 1)"
proof -
  have "int (loop_iterations (init_state bal))
       \<le> max 0 (int (length (debtors_of bal)) + int (length (creditors_of bal)) - 1)"
  proof (cases "loop_cond (init_state bal)")
    case True
    from loop_iterations_bound [OF True] show ?thesis
      by (simp add: remaining_def init_state_def)
  next
    case False
    then show ?thesis by (simp add: loop_iterations.simps [of "init_state bal"])
  qed
  with loop_funpow loop_exit show ?thesis by blast
qed

text \<open>
  C6 (positivity). Every payment of the settlement has an amount strictly above the
  tolerance \<open>0.005\<close>, for all totals and participants.
\<close>

theorem C6_positivity:
  "\<forall>p \<in> set (settledPayments tot byParticipant participants). eps < payAmount p"
  using settledPayments_ok(1) by blast

theorem C6_positivity_witness:
  "\<lparr>payFrom = ''Bob'', payTo = ''Alice'', payAmount = 50\<rparr>
     \<in> set (settledPayments 100 [(''Alice'', Num 100), (''Bob'', Num 0)]
              [\<lparr>name = ''Alice''\<rparr>, \<lparr>name = ''Bob''\<rparr>])
   \<and> eps < payAmount \<lparr>payFrom = ''Bob'', payTo = ''Alice'', payAmount = 50\<rparr>"
proof -
  have "settledPayments 100 [(''Alice'', Num 100), (''Bob'', Num 0)]
          [\<lparr>name = ''Alice''\<rparr>, \<lparr>name = ''Bob''\<rparr>]
        = [\<lparr>payFrom = ''Bob'', payTo = ''Alice'', payAmount = 50\<rparr>]"
    by code_simp
  then have mem: "\<lparr>payFrom = ''Bob'', payTo = ''Alice'', payAmount = 50\<rparr>
     \<in> set (settledPayments 100 [(''Alice'', Num 100), (''Bob'', Num 0)]
              [\<lparr>name = ''Alice''\<rparr>, \<lparr>name = ''Bob''\<rparr>])"
    by simp
  with C6_positivity show ?thesis by blast
qed

text \<open>
  C7 (no self-payment). Every payment of the settlement goes from a participant whose
  balance is below \<open>-0.005\<close> to a participant whose balance is above \<open>0.005\<close>, and
  the two are different.
\<close>

theorem C7_no_self_payment:
  "\<forall>p \<in> set (settledPayments tot byParticipant participants).
     payFrom p \<noteq> payTo p
     \<and> payFrom p \<in> name ` set participants
     \<and> js_less (balance tot byParticipant participants (payFrom p)) (- eps)
     \<and> payTo p \<in> name ` set participants
     \<and> js_greater (balance tot byParticipant participants (payTo p)) eps"
proof
  fix p assume p: "p \<in> set (settledPayments tot byParticipant participants)"
  note ok = settledPayments_ok [OF p]
  from ok(3,5) eps_pos have "payFrom p \<noteq> payTo p"
    by (auto simp add: js_less_iff js_greater_iff)
  with ok show "payFrom p \<noteq> payTo p
     \<and> payFrom p \<in> name ` set participants
     \<and> js_less (balance tot byParticipant participants (payFrom p)) (- eps)
     \<and> payTo p \<in> name ` set participants
     \<and> js_greater (balance tot byParticipant participants (payTo p)) eps" by simp
qed

theorem C7_no_self_payment_witness:
  "\<lparr>payFrom = ''Carol'', payTo = ''Alice'', payAmount = 30\<rparr>
     \<in> set (settledPayments 90 [(''Alice'', Num 90), (''Bob'', Num 0), (''Carol'', Num 0)]
              [\<lparr>name = ''Alice''\<rparr>, \<lparr>name = ''Bob''\<rparr>, \<lparr>name = ''Carol''\<rparr>])
   \<and> ''Carol'' \<noteq> ''Alice''
   \<and> js_less (balance 90 [(''Alice'', Num 90), (''Bob'', Num 0), (''Carol'', Num 0)]
         [\<lparr>name = ''Alice''\<rparr>, \<lparr>name = ''Bob''\<rparr>, \<lparr>name = ''Carol''\<rparr>] ''Carol'') (- eps)
   \<and> js_greater (balance 90 [(''Alice'', Num 90), (''Bob'', Num 0), (''Carol'', Num 0)]
         [\<lparr>name = ''Alice''\<rparr>, \<lparr>name = ''Bob''\<rparr>, \<lparr>name = ''Carol''\<rparr>] ''Alice'') eps"
proof -
  have "settledPayments 90 [(''Alice'', Num 90), (''Bob'', Num 0), (''Carol'', Num 0)]
          [\<lparr>name = ''Alice''\<rparr>, \<lparr>name = ''Bob''\<rparr>, \<lparr>name = ''Carol''\<rparr>]
        = [\<lparr>payFrom = ''Bob'', payTo = ''Alice'', payAmount = 30\<rparr>,
           \<lparr>payFrom = ''Carol'', payTo = ''Alice'', payAmount = 30\<rparr>]"
    by code_simp
  then have mem: "\<lparr>payFrom = ''Carol'', payTo = ''Alice'', payAmount = 30\<rparr>
     \<in> set (settledPayments 90 [(''Alice'', Num 90), (''Bob'', Num 0), (''Carol'', Num 0)]
              [\<lparr>name = ''Alice''\<rparr>, \<lparr>name = ''Bob''\<rparr>, \<lparr>name = ''Carol''\<rparr>])"
    by simp
  from bspec [OF C7_no_self_payment mem] mem show ?thesis by simp
qed

text \<open>
  C8 (aggregator totality). The totals per category have exactly the seven categories
  as keys, in the order of the enumeration, and each category maps to the sum of the
  amounts of the expenses of that category, added in doubles from left to right; a
  category without expenses maps to \<open>0\<close>.
\<close>

theorem C8_expensesByCategory_total:
  "map fst (expensesByCategory expenses) = CATEGORIES
   \<and> c \<in> set CATEGORIES
   \<and> map_of (expensesByCategory expenses) c =
       Some (js_sum (map amount (filter (\<lambda>e. category e = c) expenses)))"
proof -
  have "map fst (foldl (\<lambda>ob e. AList.update (category e)
                        (fl (get_or_zero ob (category e) + amount e)) ob) ob0 expenses) = CATEGORIES"
    if "map fst ob0 = CATEGORIES" for ob0
    using that
  proof (induction expenses arbitrary: ob0)
    case Nil
    then show ?case by simp
  next
    case (Cons e es)
    have "category e \<in> set CATEGORIES"
      by (cases "category e") (simp_all add: CATEGORIES_def)
    with Cons.prems have "map fst (AList.update (category e)
        (fl (get_or_zero ob0 (category e) + amount e)) ob0) = CATEGORIES"
      by (simp add: update_keys)
    from Cons.IH [OF this] show ?case by simp
  qed
  moreover have "map fst (foldl (\<lambda>ob cat. AList.update cat 0 ob) [] CATEGORIES) = CATEGORIES"
    by (simp add: CATEGORIES_def)
  ultimately have "map fst (expensesByCategory expenses) = CATEGORIES"
    by (simp add: expensesByCategory_def)
  moreover have "c \<in> set CATEGORIES"
    by (cases c) (simp_all add: CATEGORIES_def)
  ultimately show ?thesis
    by (simp add: expensesByCategory_lookup)
qed

text \<open>
  C9 (keys of the totals per participant), as stated: the keys are the participant names
  together with the payers, and an unknown payer's entry holds the sum of its amounts.
  This fails for names that \<^verbatim>\<open>Object.prototype\<close> knows: a participant named
  \<^verbatim>\<open>__proto__\<close> gets no entry, and an unknown payer named \<^verbatim>\<open>toString\<close> gets a
  string, the inherited function concatenated with the amount.
\<close>

theorem C9_keys_counterexample:
  "fst ` set (expensesByParticipant [] [\<lparr>name = ''Ana''\<rparr>, \<lparr>name = ''__proto__''\<rparr>])
     \<noteq> name ` set [\<lparr>name = ''Ana''\<rparr>, \<lparr>name = ''__proto__''\<rparr>] \<union> paidBy ` set []
   \<and> expensesByParticipant [] [\<lparr>name = ''Ana''\<rparr>, \<lparr>name = ''__proto__''\<rparr>] = [(''Ana'', Num 0)]
   \<and> expensesByParticipant [\<lparr>amount = 10, category = COMIDA, paidBy = ''toString''\<rparr>]
        [\<lparr>name = ''Ana''\<rparr>] = [(''Ana'', Num 0), (''toString'', Str)]"
proof -
  have 1: "expensesByParticipant [] [\<lparr>name = ''Ana''\<rparr>, \<lparr>name = ''__proto__''\<rparr>] = [(''Ana'', Num 0)]"
    by code_simp
  have 2: "expensesByParticipant [\<lparr>amount = 10, category = COMIDA, paidBy = ''toString''\<rparr>]
        [\<lparr>name = ''Ana''\<rparr>] = [(''Ana'', Num 0), (''toString'', Str)]"
    by code_simp
  show ?thesis unfolding 1 2 by auto
qed

text \<open>
  C9, amended: the keys of the totals per participant are the participant names together
  with the payers, except \<^verbatim>\<open>__proto__\<close>. The entry of a participant holds the sum of the
  amounts paid under that name; so does the entry of a payer who is no participant,
  unless the name is a property name of \<^verbatim>\<open>Object.prototype\<close>, where it holds a string.
  So the keys can go beyond the participant list.
\<close>

theorem C9_expensesByParticipant_keys:
  "fst ` set (expensesByParticipant expenses participants)
     = (name ` set participants \<union> paidBy ` set expenses) - {''__proto__''}
   \<and> map_of (expensesByParticipant expenses participants) k =
       (if k = ''__proto__'' then None
        else if k \<in> name ` set participants
        then Some (Num (js_sum (map amount (filter (\<lambda>e. paidBy e = k) expenses))))
        else if k \<in> paidBy ` set expenses
        then (if k \<in> set proto_names then Some Str
              else Some (Num (js_sum (map amount (filter (\<lambda>e. paidBy e = k) expenses)))))
        else None)
   \<and> (\<exists>es ps. \<not> fst ` set (expensesByParticipant es ps) \<subseteq> name ` set ps)"
proof -
  have "\<not> fst ` set (expensesByParticipant
            [\<lparr>amount = 10, category = COMIDA, paidBy = ''Eva''\<rparr>] [\<lparr>name = ''Ana''\<rparr>])
          \<subseteq> name ` set [\<lparr>name = ''Ana''\<rparr>]"
    by (simp add: expensesByParticipant_keys)
  then have "\<exists>es ps. \<not> fst ` set (expensesByParticipant es ps) \<subseteq> name ` set ps"
    by blast
  then show ?thesis
    using expensesByParticipant_keys [of expenses participants]
      expensesByParticipant_lookup [of expenses participants k]
    by blast
qed

text \<open>
  C10 (a transfer of exactly the tolerance). Four participants A, B, D, G; B and D each
  paid 7.883226080348214e-05, G paid 0.005078832260803484 and A paid
  0.015078832260803487. In doubles the balances are A: \<open>2 * 0.005 + 2\<^sup>-\<^sup>5\<^sup>9\<close>, B and D:
  \<open>-(0.005 + 2\<^sup>-\<^sup>5\<^sup>9)\<close>, G: 0. The first pass pays B's debt to A and leaves A with exactly
  \<open>0.005\<close>. In the second pass the transfer between D and A is exactly \<open>0.005\<close>: no
  payment is pushed, yet D goes to \<open>-2\<^sup>-\<^sup>5\<^sup>9\<close>, A goes to 0 and both indices advance. The
  payments sum to \<open>0.005\<close> less than the positive balances.
\<close>

theorem C10_transfer_equal_eps:
  "let es = [\<lparr>amount = fl (7883226080348214 / 10 ^ 20), category = COMIDA, paidBy = ''B''\<rparr>,
             \<lparr>amount = fl (7883226080348214 / 10 ^ 20), category = COMIDA, paidBy = ''D''\<rparr>,
             \<lparr>amount = fl (5078832260803484 / 10 ^ 18), category = COMIDA, paidBy = ''G''\<rparr>,
             \<lparr>amount = fl (15078832260803487 / 10 ^ 18), category = COMIDA, paidBy = ''A''\<rparr>];
       ps = [\<lparr>name = ''A''\<rparr>, \<lparr>name = ''B''\<rparr>, \<lparr>name = ''D''\<rparr>, \<lparr>name = ''G''\<rparr>];
       bal = balances (totalTripCost es) (expensesByParticipant es ps) ps;
       s1 = loop_body (init_state bal);
       s2 = loop_body s1;
       t = eps + 2 / 2 ^ 60
   in bal = [(''A'', Num (t + eps)), (''B'', Num (- t)), (''D'', Num (- t)), (''G'', Num 0)]
      \<and> loop_cond (init_state bal) \<and> loop_cond s1
      \<and> debtors s1 ! dIdx s1 = (''D'', - t)
      \<and> creditors s1 ! cIdx s1 = (''A'', eps)
      \<and> transfer_of s1 = eps
      \<and> payments s2 = payments s1
      \<and> debtors s2 ! dIdx s1 = (''D'', - (2 / 2 ^ 60))
      \<and> creditors s2 ! cIdx s1 = (''A'', 0)
      \<and> dIdx s2 = dIdx s1 + 1 \<and> cIdx s2 = cIdx s1 + 1
      \<and> settlement es ps = [\<lparr>payFrom = ''B'', payTo = ''A'', payAmount = t\<rparr>]
      \<and> sum_list (map payAmount (settlement es ps))
          = sum_list (map (\<lambda>p. max 0 (num_of (balance (totalTripCost es)
                (expensesByParticipant es ps) ps (name p)))) ps) - eps"
proof -
  have am: "fl (7883226080348214 / 10 ^ 20) = (45443704368555 / 576460752303423488)"
    "fl (5078832260803484 / 10 ^ 18) = (5855494931771347 / 1152921504606846976)"
    "fl (15078832260803487 / 10 ^ 18) = (4346177494459955 / 288230376151711744)"
    by code_simp+
  have tot: "totalTripCost [\<lparr>amount = (45443704368555 / 576460752303423488), category = COMIDA, paidBy = ''B''\<rparr>,
          \<lparr>amount = (45443704368555 / 576460752303423488), category = COMIDA, paidBy = ''D''\<rparr>,
          \<lparr>amount = (5855494931771347 / 1152921504606846976), category = COMIDA, paidBy = ''G''\<rparr>,
          \<lparr>amount = (4346177494459955 / 288230376151711744), category = COMIDA, paidBy = ''A''\<rparr>] = (5855494931771347 / 288230376151711744)"
    by code_simp
  have byP: "expensesByParticipant [\<lparr>amount = (45443704368555 / 576460752303423488), category = COMIDA, paidBy = ''B''\<rparr>,
          \<lparr>amount = (45443704368555 / 576460752303423488), category = COMIDA, paidBy = ''D''\<rparr>,
          \<lparr>amount = (5855494931771347 / 1152921504606846976), category = COMIDA, paidBy = ''G''\<rparr>,
          \<lparr>amount = (4346177494459955 / 288230376151711744), category = COMIDA, paidBy = ''A''\<rparr>] [\<lparr>name = ''A''\<rparr>, \<lparr>name = ''B''\<rparr>, \<lparr>name = ''D''\<rparr>, \<lparr>name = ''G''\<rparr>]
      = [(''A'', Num (4346177494459955 / 288230376151711744)), (''B'', Num (45443704368555 / 576460752303423488)), (''D'', Num (45443704368555 / 576460752303423488)), (''G'', Num (5855494931771347 / 1152921504606846976))]"
    by code_simp
  have bal: "balances (5855494931771347 / 288230376151711744) [(''A'', Num (4346177494459955 / 288230376151711744)), (''B'', Num (45443704368555 / 576460752303423488)), (''D'', Num (45443704368555 / 576460752303423488)), (''G'', Num (5855494931771347 / 1152921504606846976))] [\<lparr>name = ''A''\<rparr>, \<lparr>name = ''B''\<rparr>, \<lparr>name = ''D''\<rparr>, \<lparr>name = ''G''\<rparr>]
      = [(''A'', Num (1441151880758559 / 144115188075855872)), (''B'', Num (- (5764607523034237 / 1152921504606846976))), (''D'', Num (- (5764607523034237 / 1152921504606846976))), (''G'', Num 0)]"
    by code_simp
  have balv: "balance (5855494931771347 / 288230376151711744) [(''A'', Num (4346177494459955 / 288230376151711744)), (''B'', Num (45443704368555 / 576460752303423488)), (''D'', Num (45443704368555 / 576460752303423488)), (''G'', Num (5855494931771347 / 1152921504606846976))] [\<lparr>name = ''A''\<rparr>, \<lparr>name = ''B''\<rparr>, \<lparr>name = ''D''\<rparr>, \<lparr>name = ''G''\<rparr>] ''A'' = Num (1441151880758559 / 144115188075855872)"
    "balance (5855494931771347 / 288230376151711744) [(''A'', Num (4346177494459955 / 288230376151711744)), (''B'', Num (45443704368555 / 576460752303423488)), (''D'', Num (45443704368555 / 576460752303423488)), (''G'', Num (5855494931771347 / 1152921504606846976))] [\<lparr>name = ''A''\<rparr>, \<lparr>name = ''B''\<rparr>, \<lparr>name = ''D''\<rparr>, \<lparr>name = ''G''\<rparr>] ''B'' = Num (- (5764607523034237 / 1152921504606846976))"
    "balance (5855494931771347 / 288230376151711744) [(''A'', Num (4346177494459955 / 288230376151711744)), (''B'', Num (45443704368555 / 576460752303423488)), (''D'', Num (45443704368555 / 576460752303423488)), (''G'', Num (5855494931771347 / 1152921504606846976))] [\<lparr>name = ''A''\<rparr>, \<lparr>name = ''B''\<rparr>, \<lparr>name = ''D''\<rparr>, \<lparr>name = ''G''\<rparr>] ''D'' = Num (- (5764607523034237 / 1152921504606846976))"
    "balance (5855494931771347 / 288230376151711744) [(''A'', Num (4346177494459955 / 288230376151711744)), (''B'', Num (45443704368555 / 576460752303423488)), (''D'', Num (45443704368555 / 576460752303423488)), (''G'', Num (5855494931771347 / 1152921504606846976))] [\<lparr>name = ''A''\<rparr>, \<lparr>name = ''B''\<rparr>, \<lparr>name = ''D''\<rparr>, \<lparr>name = ''G''\<rparr>] ''G'' = Num 0"
    by code_simp+
  have init: "init_state [(''A'', Num (1441151880758559 / 144115188075855872)), (''B'', Num (- (5764607523034237 / 1152921504606846976))), (''D'', Num (- (5764607523034237 / 1152921504606846976))), (''G'', Num 0)]
      = \<lparr>debtors = [(''B'', - (5764607523034237 / 1152921504606846976)), (''D'', - (5764607523034237 / 1152921504606846976))], creditors = [(''A'', (1441151880758559 / 144115188075855872))], payments = [], dIdx = 0, cIdx = 0\<rparr>"
    by code_simp
  have s1: "loop_body \<lparr>debtors = [(''B'', - (5764607523034237 / 1152921504606846976)), (''D'', - (5764607523034237 / 1152921504606846976))], creditors = [(''A'', (1441151880758559 / 144115188075855872))], payments = [], dIdx = 0, cIdx = 0\<rparr>
      = \<lparr>debtors = [(''B'', 0), (''D'', - (5764607523034237 / 1152921504606846976))], creditors = [(''A'', (5764607523034235 / 1152921504606846976))], payments = [\<lparr>payFrom = ''B'', payTo = ''A'', payAmount = (5764607523034237 / 1152921504606846976)\<rparr>], dIdx = Suc 0, cIdx = 0\<rparr>"
    by code_simp
  have s2: "loop_body \<lparr>debtors = [(''B'', 0), (''D'', - (5764607523034237 / 1152921504606846976))], creditors = [(''A'', (5764607523034235 / 1152921504606846976))], payments = [\<lparr>payFrom = ''B'', payTo = ''A'', payAmount = (5764607523034237 / 1152921504606846976)\<rparr>], dIdx = Suc 0, cIdx = 0\<rparr>
      = \<lparr>debtors = [(''B'', 0), (''D'', - (1 / 576460752303423488))], creditors = [(''A'', 0)], payments = [\<lparr>payFrom = ''B'', payTo = ''A'', payAmount = (5764607523034237 / 1152921504606846976)\<rparr>], dIdx = Suc (Suc 0), cIdx = Suc 0\<rparr>"
    by code_simp
  have lp: "loop \<lparr>debtors = [(''B'', - (5764607523034237 / 1152921504606846976)), (''D'', - (5764607523034237 / 1152921504606846976))], creditors = [(''A'', (1441151880758559 / 144115188075855872))], payments = [], dIdx = 0, cIdx = 0\<rparr>
      = \<lparr>debtors = [(''B'', 0), (''D'', - (1 / 576460752303423488))], creditors = [(''A'', 0)], payments = [\<lparr>payFrom = ''B'', payTo = ''A'', payAmount = (5764607523034237 / 1152921504606846976)\<rparr>], dIdx = Suc (Suc 0), cIdx = Suc 0\<rparr>"
    by (simp add: loop.simps [of "\<lparr>debtors = [(''B'', - (5764607523034237 / 1152921504606846976)), (''D'', - (5764607523034237 / 1152921504606846976))], creditors = [(''A'', (1441151880758559 / 144115188075855872))], payments = [], dIdx = 0, cIdx = 0\<rparr>"]
        loop.simps [of "\<lparr>debtors = [(''B'', 0), (''D'', - (5764607523034237 / 1152921504606846976))], creditors = [(''A'', (5764607523034235 / 1152921504606846976))], payments = [\<lparr>payFrom = ''B'', payTo = ''A'', payAmount = (5764607523034237 / 1152921504606846976)\<rparr>], dIdx = Suc 0, cIdx = 0\<rparr>"]
        loop.simps [of "\<lparr>debtors = [(''B'', 0), (''D'', - (1 / 576460752303423488))], creditors = [(''A'', 0)], payments = [\<lparr>payFrom = ''B'', payTo = ''A'', payAmount = (5764607523034237 / 1152921504606846976)\<rparr>], dIdx = Suc (Suc 0), cIdx = Suc 0\<rparr>"]
        s1 s2 loop_cond_def)
  show ?thesis
    unfolding Let_def settlement_def settledPayments_def am tot byP bal balv init s1 s2 lp
    by (simp add: balv loop_cond_def transfer_of_def eps_def num_of_def)
qed

end
